theory Spec2Isabelle
  imports Main
begin

section \<open>JavaScript values\<close>

text \<open>
  The values handlers receive and return. A promise (or any thenable) carries the way it
  will eventually settle; \<open>Pending\<close> is a promise that never settles. A synchronous caller
  sees the promise object itself, an \<open>await\<close> sees its settlement.
\<close>

datatype jsval = Undefined | Null | Bool bool | Num int | Str string | Obj nat
  | Promise settlement
and settlement = Pending | Fulfilled jsval | Rejected jsval

text \<open>
  Modelled from the spec: \<open>isPromise\<close> of \<open>utils.js\<close> is not among the sources; the spec
  says a warning is logged "if a handler returns a thenable", and the tests of the
  utilities expect \<open>true\<close> for promises and thenables and \<open>false\<close> for every other value.
\<close>

fun isPromise :: "jsval \<Rightarrow> bool" where
  "isPromise (Promise s) = True"
| "isPromise v = False"

text \<open>What \<open>await v\<close> does to the awaiting function.\<close>

datatype 'a awaited = Done 'a | Threw jsval | Stuck

fun await :: "jsval \<Rightarrow> jsval awaited" where
  "await (Promise Pending) = Stuck"
| "await (Promise (Fulfilled v)) = Done v"
| "await (Promise (Rejected e)) = Threw e"
| "await v = Done v"

text \<open>
  Modelled from the spec: \<open>runAsPromise\<close> of \<open>utils.js\<close> is not among the sources; its
  tests say it resolves with the result of a synchronous function, resolves with the
  resolved value of an asynchronous one, and rejects when the promise rejects. It takes
  the value the function returned.
\<close>

fun runAsPromise :: "jsval \<Rightarrow> jsval" where
  "runAsPromise (Promise s) = Promise s"
| "runAsPromise v = Promise (Fulfilled v)"

section \<open>The hook registry (src/modules/Hooks.ts)\<close>

subsection \<open>Data\<close>

text \<open>
  The part of the program state the registry writes besides its own ledgers: the console,
  the events dispatched on \<open>document\<close>, and \<open>swup.visit\<close>. Everything handlers can change
  is \<open>ustate\<close>; handlers are taken not to call back into the registry and to return
  normally.
\<close>

datatype level = Error | Warn

record 'u world =
  console :: "(level \<times> string) list"
  events :: "(string \<times> string \<times> jsval \<times> jsval) list"
  visit :: jsval
  ustate :: 'u

text \<open>
  A default handler as a replacing handler receives it: called with \<open>(visit, args)\<close>.
  A handler is a function object: \<open>href\<close> is its identity (the key of the ledger, which
  compares functions by reference), \<open>hbody\<close> what it does when called with
  \<open>(visit, args, defaultHandler)\<close>.
\<close>

type_synonym 'u dflt = "jsval \<Rightarrow> jsval \<Rightarrow> 'u \<Rightarrow> jsval \<times> 'u"

record 'u handler =
  href :: nat
  hbody :: "jsval \<Rightarrow> jsval \<Rightarrow> 'u dflt option \<Rightarrow> 'u \<Rightarrow> jsval \<times> 'u"

text \<open>
  \<open>HookOptions\<close>: an absent flag is falsy, so the three flags are booleans; an absent
  priority is \<open>None\<close> (\<open>priority ?? 0\<close> reads it). \<open>HookRegistration\<close> is the options
  together with \<open>id\<close>, \<open>hook\<close>, \<open>handler\<close> and the optional \<open>defaultHandler\<close>.
\<close>

record options =
  once :: bool
  before :: bool
  priority :: "int option"
  replace :: bool

record 'u registration = options +
  id_r :: nat
  hook :: string
  handler :: "'u handler"
  defaultHandler :: "'u dflt option"

text \<open>
  \<open>HookLedger\<close> is a JavaScript \<open>Map\<close> from handler functions to registrations: it keeps
  insertion order, and setting a key it already holds replaces the value in place.
  \<open>HookRegistry\<close> maps hook names to ledgers.
\<close>

type_synonym 'u ledger = "(nat \<times> 'u registration) list"

type_synonym 'u registry = "string \<Rightarrow> 'u ledger option"

fun ledger_set :: "nat \<Rightarrow> 'u registration \<Rightarrow> 'u ledger \<Rightarrow> 'u ledger" where
  "ledger_set k v [] = [(k, v)]"
| "ledger_set k v ((k', v') # l) =
     (if k' = k then (k, v) # l else (k', v') # ledger_set k v l)"

definition ledger_has :: "nat \<Rightarrow> 'u ledger \<Rightarrow> bool" where
  "ledger_has k l = (k \<in> set (map fst l))"

definition ledger_delete :: "nat \<Rightarrow> 'u ledger \<Rightarrow> 'u ledger" where
  "ledger_delete k l = filter (\<lambda>e. fst e \<noteq> k) l"

definition ledger_values :: "'u ledger \<Rightarrow> 'u registration list" where
  "ledger_values l = map snd l"

subsection \<open>Creating hooks\<close>

definition hooks :: "string list" where
  "hooks =
    [''animation:out:start'', ''animation:out:await'', ''animation:out:end'',
     ''animation:in:start'', ''animation:in:await'', ''animation:in:end'',
     ''animation:skip'', ''cache:clear'', ''cache:set'', ''content:replace'',
     ''content:scroll'', ''enable'', ''disable'', ''fetch:request'', ''fetch:error'',
     ''history:popstate'', ''link:click'', ''link:self'', ''link:anchor'',
     ''link:newtab'', ''page:load'', ''page:view'', ''scroll:top'', ''scroll:anchor'',
     ''visit:start'', ''visit:end'']"

definition create :: "string \<Rightarrow> 'u registry \<Rightarrow> 'u registry" where
  "create h reg = (if reg h = None then reg(h \<mapsto> []) else reg)"

definition init :: "'u registry" where
  "init = fold create hooks Map.empty"

definition exists :: "string \<Rightarrow> 'u registry \<Rightarrow> bool" where
  "exists h reg = (reg h \<noteq> None)"

definition quoted :: "string \<Rightarrow> string" where
  "quoted s = [CHR 0x27] @ s @ [CHR 0x27]"

text \<open>The diagnostics the registry writes to the console.\<close>

definition unknown_hook_error :: "string \<Rightarrow> level \<times> string" where
  "unknown_hook_error h = (Error, ''Unknown hook '' @ quoted h)"

definition hook_not_found :: "string \<Rightarrow> level \<times> string" where
  "hook_not_found h = (Warn, ''Hook '' @ quoted h @ '' not found.'')"

definition handler_not_found :: "string \<Rightarrow> level \<times> string" where
  "handler_not_found h = (Warn, ''Handler for hook '' @ quoted h @ '' not found.'')"

definition promise_warning :: "string \<Rightarrow> level \<times> string" where
  "promise_warning h =
     (Warn, ''Promise returned from handler for synchronous hook '' @ quoted h @ ''.''
              @ ''Swup will not wait for it to resolve.'')"

definition get :: "string \<Rightarrow> 'u registry \<Rightarrow> 'u world \<Rightarrow> 'u ledger option \<times> 'u world" where
  "get h reg w =
     (case reg h of
        Some ledger \<Rightarrow> (Some ledger, w)
      | None \<Rightarrow> (None, w\<lparr>console := console w @ [unknown_hook_error h]\<rparr>))"

definition clear :: "'u registry \<Rightarrow> 'u registry" where
  "clear reg = (\<lambda>h. map_option (\<lambda>ledger. []) (reg h))"

subsection \<open>Registering and unregistering\<close>

text \<open>The function \<open>on\<close> returns: \<open>() => {}\<close> or \<open>() => this.off(hook, handler)\<close>.\<close>

datatype 'u unregister = Noop | Unregister string "'u handler"

definition off ::
  "string \<Rightarrow> 'u handler option \<Rightarrow> 'u registry \<Rightarrow> 'u world \<Rightarrow> 'u registry \<times> 'u world" where
  "off h handler_opt reg w =
     (case get h reg w of
        (Some ledger, w1) \<Rightarrow>
          (case handler_opt of
             Some hnd \<Rightarrow>
               (let deleted = ledger_has (href hnd) ledger;
                    reg1 = reg(h \<mapsto> ledger_delete (href hnd) ledger)
                in if \<not> deleted
                   then (reg1, w1\<lparr>console := console w1 @ [handler_not_found h]\<rparr>)
                   else (reg1, w1))
           | None \<Rightarrow> (reg(h \<mapsto> []), w1))
      | (None, w1) \<Rightarrow> (reg, w1))"

definition on ::
  "string \<Rightarrow> 'u handler \<Rightarrow> options \<Rightarrow> 'u registry \<Rightarrow> 'u world
     \<Rightarrow> 'u unregister \<times> 'u registry \<times> 'u world" where
  "on h hnd opts reg w =
     (case get h reg w of
        (None, w1) \<Rightarrow>
          (Noop, reg, w1\<lparr>console := console w1 @ [hook_not_found h]\<rparr>)
      | (Some ledger, w1) \<Rightarrow>
          (let id = length ledger + 1;
               registration = \<lparr>once = once opts, before = before opts,
                 priority = priority opts, replace = replace opts,
                 id_r = id, hook = h, handler = hnd, defaultHandler = None\<rparr>
           in (Unregister h hnd, reg(h \<mapsto> ledger_set (href hnd) registration ledger), w1)))"

fun run_unregister ::
  "'u unregister \<Rightarrow> 'u registry \<Rightarrow> 'u world \<Rightarrow> 'u registry \<times> 'u world" where
  "run_unregister Noop reg w = (reg, w)"
| "run_unregister (Unregister h hnd) reg w = off h (Some hnd) reg w"

text \<open>The shortcuts \<open>before\<close>, \<open>replace\<close> and \<open>once\<close> of the class.\<close>

definition before_on ::
  "string \<Rightarrow> 'u handler \<Rightarrow> options \<Rightarrow> 'u registry \<Rightarrow> 'u world
     \<Rightarrow> 'u unregister \<times> 'u registry \<times> 'u world" where
  "before_on h hnd opts = on h hnd (opts\<lparr>before := True\<rparr>)"

definition replace_on ::
  "string \<Rightarrow> 'u handler \<Rightarrow> options \<Rightarrow> 'u registry \<Rightarrow> 'u world
     \<Rightarrow> 'u unregister \<times> 'u registry \<times> 'u world" where
  "replace_on h hnd opts = on h hnd (opts\<lparr>replace := True\<rparr>)"

definition once_on ::
  "string \<Rightarrow> 'u handler \<Rightarrow> options \<Rightarrow> 'u registry \<Rightarrow> 'u world
     \<Rightarrow> 'u unregister \<times> 'u registry \<times> 'u world" where
  "once_on h hnd opts = on h hnd (opts\<lparr>once := True\<rparr>)"

subsection \<open>Ordering the registrations\<close>

text \<open>\<open>prio r\<close> is \<open>r.priority ?? 0\<close>.\<close>

definition prio :: "'u registration \<Rightarrow> int" where
  "prio r = (case priority r of Some p \<Rightarrow> p | None \<Rightarrow> 0)"

definition sortRegistrations :: "'u registration \<Rightarrow> 'u registration \<Rightarrow> int" where
  "sortRegistrations a b =
     (let priority = prio a - prio b;
          id = int (id_r a) - int (id_r b)
      in if priority \<noteq> 0 then priority else if id \<noteq> 0 then id else 0)"

text \<open>The order the comparator stands for: by priority, then by id.\<close>

definition reg_le :: "'u registration \<Rightarrow> 'u registration \<Rightarrow> bool" where
  "reg_le a b = (prio a < prio b \<or> (prio a = prio b \<and> id_r a \<le> id_r b))"

text \<open>
  \<open>Array.prototype.sort\<close> with a comparator: the sort is stable (ECMAScript 2019), so
  with a consistent comparator its result is the one of a stable insertion sort.
\<close>

fun insort_cmp :: "('a \<Rightarrow> 'a \<Rightarrow> int) \<Rightarrow> 'a \<Rightarrow> 'a list \<Rightarrow> 'a list" where
  "insort_cmp c x [] = [x]"
| "insort_cmp c x (y # ys) = (if c x y \<le> 0 then x # y # ys else y # insort_cmp c x ys)"

definition sort_cmp :: "('a \<Rightarrow> 'a \<Rightarrow> int) \<Rightarrow> 'a list \<Rightarrow> 'a list" where
  "sort_cmp c xs = foldr (insort_cmp c) xs []"

subsection \<open>Collecting the handlers of a hook\<close>

record 'u handlers =
  found :: bool
  before_list :: "'u registration list"
  handler_list :: "'u registration list"
  after_list :: "'u registration list"
  replaced :: bool

text \<open>
  \<open>createDefaultHandler(index)\<close>: \<open>replace[index - 1]\<close> is undefined at index 0 and beyond
  the array, and then the hook's own default handler is returned.
\<close>

fun createDefaultHandler ::
  "'u registration list \<Rightarrow> 'u handler \<Rightarrow> nat \<Rightarrow> 'u dflt option" where
  "createDefaultHandler rs dh 0 = Some (\<lambda>v a. hbody dh v a None)"
| "createDefaultHandler rs dh (Suc i) =
     (if i < length rs
      then Some (\<lambda>v a. hbody (handler (rs ! i)) v a (createDefaultHandler rs dh i))
      else Some (\<lambda>v a. hbody dh v a None))"

definition main_registration ::
  "string \<Rightarrow> 'u handler \<Rightarrow> 'u dflt option \<Rightarrow> 'u registration" where
  "main_registration h hnd dflt =
     \<lparr>once = False, before = False, priority = None, replace = False,
      id_r = 0, hook = h, handler = hnd, defaultHandler = dflt\<rparr>"

definition getHandlers ::
  "string \<Rightarrow> 'u handler option \<Rightarrow> 'u registry \<Rightarrow> 'u world \<Rightarrow> 'u handlers \<times> 'u world" where
  "getHandlers h dh_opt reg w =
     (case get h reg w of
        (None, w1) \<Rightarrow>
          (\<lparr>found = False, before_list = [], handler_list = [], after_list = [],
            replaced = False\<rparr>, w1)
      | (Some ledger, w1) \<Rightarrow>
          (let registrations = ledger_values ledger;
               bs = sort_cmp sortRegistrations
                      (filter (\<lambda>r. before r \<and> \<not> replace r) registrations);
               rs = sort_cmp sortRegistrations (filter (\<lambda>r. replace r) registrations);
               as = sort_cmp sortRegistrations
                      (filter (\<lambda>r. \<not> before r \<and> \<not> replace r) registrations);
               rd = (length rs > 0);
               hs = (case dh_opt of
                       None \<Rightarrow> []
                     | Some dh \<Rightarrow>
                         if rd
                         then (let index = length rs - 1;
                                   replacingHandler = handler (rs ! index);
                                   nestedDefaultHandler = createDefaultHandler rs dh index
                               in [main_registration h replacingHandler nestedDefaultHandler])
                         else [main_registration h dh None])
           in (\<lparr>found = True, before_list = bs, handler_list = hs, after_list = as,
                replaced = rd\<rparr>, w1)))"

subsection \<open>Running handlers\<close>

definition dispatchDomEvent :: "string \<Rightarrow> jsval \<Rightarrow> 'u world \<Rightarrow> 'u world" where
  "dispatchDomEvent h args w = w\<lparr>events := events w @ [(''swup:'' @ h, h, args, visit w)]\<rparr>"

fun runSync ::
  "'u registration list \<Rightarrow> jsval \<Rightarrow> 'u registry \<Rightarrow> 'u world
     \<Rightarrow> jsval list \<times> 'u registry \<times> 'u world" where
  "runSync [] args reg w = ([], reg, w)"
| "runSync (r # rs) args reg w =
     (let res = hbody (handler r) (visit w) args (defaultHandler r) (ustate w);
          w1 = w\<lparr>ustate := snd res\<rparr>;
          w2 = (if isPromise (fst res)
                then w1\<lparr>console := console w1 @ [promise_warning (hook r)]\<rparr>
                else w1);
          st = (if once r then off (hook r) (Some (handler r)) reg w2 else (reg, w2));
          rest = runSync rs args (fst st) (snd st)
      in (fst res # fst rest, snd rest))"

fun run ::
  "'u registration list \<Rightarrow> jsval \<Rightarrow> 'u registry \<Rightarrow> 'u world
     \<Rightarrow> jsval list awaited \<times> 'u registry \<times> 'u world" where
  "run [] args reg w = (Done [], reg, w)"
| "run (r # rs) args reg w =
     (let res = hbody (handler r) (visit w) args (defaultHandler r) (ustate w);
          w1 = w\<lparr>ustate := snd res\<rparr>
      in case await (runAsPromise (fst res)) of
           Stuck \<Rightarrow> (Stuck, reg, w1)
         | Threw e \<Rightarrow> (Threw e, reg, w1)
         | Done result \<Rightarrow>
             (let st = (if once r then off (hook r) (Some (handler r)) reg w1 else (reg, w1));
                  rest = run rs args (fst st) (snd st)
              in case fst rest of
                   Done results \<Rightarrow> (Done (result # results), snd rest)
                 | Threw e \<Rightarrow> (Threw e, snd rest)
                 | Stuck \<Rightarrow> (Stuck, snd rest)))"

text \<open>\<open>const [result] = results\<close>: the first element, \<open>undefined\<close> for an empty array.\<close>

fun first_of :: "jsval list \<Rightarrow> jsval" where
  "first_of [] = Undefined"
| "first_of (x # xs) = x"

definition callSync ::
  "string \<Rightarrow> jsval \<Rightarrow> 'u handler option \<Rightarrow> 'u registry \<Rightarrow> 'u world
     \<Rightarrow> jsval \<times> 'u registry \<times> 'u world" where
  "callSync h args dh_opt reg w =
     (let gh = getHandlers h dh_opt reg w;
          r1 = runSync (before_list (fst gh)) args reg (snd gh);
          r2 = runSync (handler_list (fst gh)) args (fst (snd r1)) (snd (snd r1));
          result = first_of (fst r2);
          r3 = runSync (after_list (fst gh)) args (fst (snd r2)) (snd (snd r2))
      in (result, fst (snd r3), dispatchDomEvent h args (snd (snd r3))))"

text \<open>
  The asynchronous trigger, as the promise it returns settles: \<open>Done v\<close> fulfilled with
  \<open>v\<close>, \<open>Threw e\<close> rejected, \<open>Stuck\<close> never settled. No other task is taken to touch the
  registry while it waits.
\<close>

definition call ::
  "string \<Rightarrow> jsval \<Rightarrow> 'u handler option \<Rightarrow> 'u registry \<Rightarrow> 'u world
     \<Rightarrow> jsval awaited \<times> 'u registry \<times> 'u world" where
  "call h args dh_opt reg w =
     (let gh = getHandlers h dh_opt reg w;
          r1 = run (before_list (fst gh)) args reg (snd gh)
      in case fst r1 of
           Stuck \<Rightarrow> (Stuck, snd r1)
         | Threw e \<Rightarrow> (Threw e, snd r1)
         | Done bs \<Rightarrow>
             (let r2 = run (handler_list (fst gh)) args (fst (snd r1)) (snd (snd r1))
              in case fst r2 of
                   Stuck \<Rightarrow> (Stuck, snd r2)
                 | Threw e \<Rightarrow> (Threw e, snd r2)
                 | Done results \<Rightarrow>
                     (let r3 = run (after_list (fst gh)) args (fst (snd r2)) (snd (snd r2))
                      in case fst r3 of
                           Stuck \<Rightarrow> (Stuck, snd r3)
                         | Threw e \<Rightarrow> (Threw e, snd r3)
                         | Done as \<Rightarrow>
                             (Done (first_of results), fst (snd r3),
                              dispatchDomEvent h args (snd (snd r3))))))"

subsection \<open>Sequences of calls on one registry\<close>

text \<open>
  A program using the registry makes a sequence of calls on it. \<open>exec\<close> performs one call
  on the registry and the world and drops what the call returns.
\<close>

datatype 'u op =
    On string "'u handler" options
  | Off string "'u handler option"
  | Clear
  | Create string
  | CallSync string jsval "'u handler option"
  | Call string jsval "'u handler option"

fun exec :: "'u op \<Rightarrow> 'u registry \<times> 'u world \<Rightarrow> 'u registry \<times> 'u world" where
  "exec (On h hnd opts) (reg, w) = snd (on h hnd opts reg w)"
| "exec (Off h handler_opt) (reg, w) = off h handler_opt reg w"
| "exec Clear (reg, w) = (clear reg, w)"
| "exec (Create h) (reg, w) = (create h reg, w)"
| "exec (CallSync h args dh_opt) (reg, w) = snd (callSync h args dh_opt reg w)"
| "exec (Call h args dh_opt) (reg, w) = snd (call h args dh_opt reg w)"

definition execs :: "'u op list \<Rightarrow> 'u registry \<times> 'u world \<Rightarrow> 'u registry \<times> 'u world" where
  "execs ops st = fold exec ops st"

text \<open>The handlers a ledger holds with the ids of their registrations, in the order of the \<open>Map\<close>.\<close>

definition ids_of :: "string \<Rightarrow> 'u registry \<Rightarrow> (nat \<times> nat) list" where
  "ids_of h reg =
     (case reg h of None \<Rightarrow> [] | Some ledger \<Rightarrow> map (\<lambda>e. (fst e, id_r (snd e))) ledger)"

text \<open>
  The registrations whose handlers the registry calls when the hook is triggered, in the
  order of the three runs of \<open>call\<close> and \<open>callSync\<close>: the \<open>before\<close> handlers, the main
  handler, the \<open>after\<close> handlers; each run goes through its list from left to right.
  \<open>precedes x y xs\<close>: \<open>x\<close> stands before \<open>y\<close> in \<open>xs\<close>.
\<close>

definition invocations :: "'u handlers \<Rightarrow> 'u registration list" where
  "invocations gh = before_list gh @ handler_list gh @ after_list gh"

definition precedes :: "'a \<Rightarrow> 'a \<Rightarrow> 'a list \<Rightarrow> bool" where
  "precedes x y xs = (\<exists>us vs ws. xs = us @ x # vs @ y # ws)"

subsection \<open>Well-formed registries\<close>

text \<open>
  What the \<open>Map\<close>s of the registry guarantee by construction: a ledger holds each key
  once, and the registration stored under a handler names that handler and the hook of
  the ledger.
\<close>

definition ledger_ok :: "string \<Rightarrow> 'u ledger \<Rightarrow> bool" where
  "ledger_ok h l =
     (distinct (map fst l) \<and>
      list_all (\<lambda>e. href (handler (snd e)) = fst e \<and> hook (snd e) = h) l)"

definition registry_ok :: "'u registry \<Rightarrow> bool" where
  "registry_ok reg = (\<forall>h l. reg h = Some l \<longrightarrow> ledger_ok h l)"

subsection \<open>Concrete handlers and states for the examples\<close>

text \<open>
  A spy records its own identity in the state and returns a fixed value. A forwarding
  handler records itself and then calls the default handler it was given, returning what
  that returns.
\<close>

definition spy :: "nat \<Rightarrow> jsval \<Rightarrow> nat list handler" where
  "spy n ret = \<lparr>href = n, hbody = (\<lambda>v a d u. (ret, u @ [n]))\<rparr>"

definition forwarding :: "nat \<Rightarrow> nat list handler" where
  "forwarding n =
     \<lparr>href = n,
      hbody = (\<lambda>v a d u. case d of None \<Rightarrow> (Undefined, u @ [n]) | Some f \<Rightarrow> f v a (u @ [n]))\<rparr>"

definition is_spy :: "nat list handler \<Rightarrow> bool" where
  "is_spy hnd = (\<exists>ret. hbody hnd = (\<lambda>v a d u. (ret, u @ [href hnd])))"

definition world0 :: "nat list world" where
  "world0 = \<lparr>console = [], events = [], visit = Obj 0, ustate = []\<rparr>"

definition opts0 :: options where
  "opts0 = \<lparr>once = False, before = False, priority = None, replace = False\<rparr>"


text \<open>
  Two spies registered on \<open>visit:start\<close>, the one with the higher priority number first,
  and the two registrations the ledger then holds.
\<close>

definition low_first_reg :: "nat list registry" where
  "low_first_reg =
     fst (execs
       [On ''visit:start'' (spy 2 Undefined) (opts0\<lparr>priority := Some 5\<rparr>),
        On ''visit:start'' (spy 1 Undefined) (opts0\<lparr>priority := Some 1\<rparr>)]
       (init, world0))"

definition reg_high :: "nat list registration" where
  "reg_high =
     \<lparr>once = False, before = False, priority = Some 5, replace = False,
      id_r = 1, hook = ''visit:start'', handler = spy 2 Undefined, defaultHandler = None\<rparr>"

definition reg_low :: "nat list registration" where
  "reg_low =
     \<lparr>once = False, before = False, priority = Some 1, replace = False,
      id_r = 2, hook = ''visit:start'', handler = spy 1 Undefined, defaultHandler = None\<rparr>"

section \<open>Rendering a page (modules/renderPage.ts)\<close>

text \<open>\<open>PageRecord\<close> and \<open>PageRenderOptions\<close>; the event is the \<open>PopStateEvent\<close> of a history visit.\<close>

record page =
  url :: string
  responseURL :: string
  title :: string
  blocks :: "string list"

record render_options =
  event :: "nat option"
  skipTransition :: bool

text \<open>
  The calls \<open>renderPage\<close> makes to parts of the program that are not among the sources
  (the cache, the history helper, the event runner, the content replacement and the enter
  stage) are recorded in the order they are made. Each awaited call is taken to complete.
\<close>

datatype effect =
    CacheUrl page
  | CacheEmpty
  | UpdateHistoryRecord string
  | EventsRun string "nat option"
  | ReplaceContent page
  | EnterPage render_options

text \<open>
  The state \<open>renderPage\<close> reads and writes: the class list of the root element, the address
  the browser shows, the fields and options of the \<open>Swup\<close> instance, and the recorded calls.
\<close>

record swup =
  classList :: "string list"
  location :: string
  currentPageUrl :: string
  scrollToElement :: "string option"
  options_cache :: bool
  options_resolvePath :: "string \<Rightarrow> string"
  effects :: "effect list"

text \<open>\<open>DOMTokenList\<close>: \<open>remove\<close> drops the token, \<open>add\<close> appends it unless it is there.\<close>

definition classList_remove :: "string \<Rightarrow> string list \<Rightarrow> string list" where
  "classList_remove t cs = filter (\<lambda>c. c \<noteq> t) cs"

definition classList_add :: "string \<Rightarrow> string list \<Rightarrow> string list" where
  "classList_add t cs = (if t \<in> set cs then cs else cs @ [t])"

text \<open>
  \<open>Swup.resolvePath\<close> (index.js): the configured function, unless it returns nothing or
  the empty string, when the path itself is the result.
\<close>

definition resolvePath :: "swup \<Rightarrow> string \<Rightarrow> string" where
  "resolvePath s path =
     (let result = options_resolvePath s path in if result = [] then path else result)"

text \<open>
  Modelled from the spec: \<open>isSameResolvedUrl\<close> belongs to a \<open>Swup\<close> class that is not among
  the sources; the spec compares "the resolved URL" of the two addresses, as
  \<open>isSameResolvedPath\<close> of index.js does.
\<close>

definition isSameResolvedUrl :: "swup \<Rightarrow> string \<Rightarrow> string \<Rightarrow> bool" where
  "isSameResolvedUrl s url1 url2 = (resolvePath s url1 = resolvePath s url2)"

text \<open>
  Modelled from the spec: \<open>getCurrentUrl\<close> and \<open>updateHistoryRecord\<close> of helpers.js are not
  among the sources. The first reads the address the browser shows; the second replaces
  the current history entry by one "carrying the resolved URL", which then is the address
  shown.
\<close>

definition getCurrentUrl :: "swup \<Rightarrow> string" where
  "getCurrentUrl s = location s"

definition updateHistoryRecord :: "string \<Rightarrow> swup \<Rightarrow> swup" where
  "updateHistoryRecord u s = s\<lparr>location := u, effects := effects s @ [UpdateHistoryRecord u]\<rparr>"

definition record_effects :: "effect list \<Rightarrow> swup \<Rightarrow> swup" where
  "record_effects es s = s\<lparr>effects := effects s @ es\<rparr>"

text \<open>
  \<open>renderPage\<close>. \<open>fromUrl\<close> stands for \<open>Location.fromUrl(_).url\<close> of helpers.js, which is not
  among the sources.
\<close>

definition renderPage :: "(string \<Rightarrow> string) \<Rightarrow> page \<Rightarrow> render_options \<Rightarrow> swup \<Rightarrow> swup" where
  "renderPage fromUrl pg opts s0 =
     (let s1 = s0\<lparr>classList := classList_remove ''is-leaving'' (classList s0)\<rparr>
      in if \<not> isSameResolvedUrl s1 (getCurrentUrl s1) (url pg) then s1
         else
           (let u = fromUrl (responseURL pg);
                s2 = (if \<not> isSameResolvedUrl s1 (getCurrentUrl s1) u
                      then (let a = record_effects [CacheUrl (pg\<lparr>url := u\<rparr>)] s1;
                                b = a\<lparr>currentPageUrl := getCurrentUrl a\<rparr>
                            in updateHistoryRecord u b)
                      else s1);
                s3 = (if \<not> skipTransition opts
                      then s2\<lparr>classList := classList_add ''is-rendering'' (classList s2)\<rparr>
                      else s2);
                s4 = record_effects
                       [EventsRun ''willReplaceContent'' (event opts), ReplaceContent pg,
                        EventsRun ''contentReplaced'' (event opts),
                        EventsRun ''pageView'' (event opts)] s3;
                s5 = (if \<not> options_cache s4 then record_effects [CacheEmpty] s4 else s4);
                s6 = record_effects [EnterPage opts] s5
            in s6\<lparr>scrollToElement := None\<rparr>))"

section \<open>Waiting for animations (modules/getAnimationPromises.js)\<close>

text \<open>
  A promise of the waiter is resolved, or waits in a listener for \<open>transitionend\<close> on one
  element. Elements are numbered; an event has a type and a target.
\<close>

datatype promise = Resolved | AwaitsTransitionEnd nat

datatype dom_event = DomEvent string nat

text \<open>\<open>!transitionDuration || transitionDuration == '0s'\<close> on the computed style.\<close>

definition no_transition :: "string option \<Rightarrow> bool" where
  "no_transition d = (case d of None \<Rightarrow> True | Some t \<Rightarrow> t = [] \<or> t = ''0s'')"

definition no_elements_error :: "string \<Rightarrow> string" where
  "no_elements_error sel = ''No animated elements found by selector '' @ sel"

definition no_transition_error :: "string \<Rightarrow> string" where
  "no_transition_error sel = ''No CSS transition defined for element of selector '' @ sel"

text \<open>The body of the \<open>forEach\<close>, on the promises collected and the console so far.\<close>

definition animate_element ::
  "string \<Rightarrow> (nat \<Rightarrow> string option) \<Rightarrow> nat \<Rightarrow> promise list \<times> string list
     \<Rightarrow> promise list \<times> string list" where
  "animate_element sel duration element st =
     (if no_transition (duration element)
      then (fst st @ [Resolved], snd st @ [no_transition_error sel])
      else (fst st @ [AwaitsTransitionEnd element], snd st))"

text \<open>
  \<open>getAnimationPromises\<close>, given the selector, what \<open>queryAll\<close> finds for it in the body of
  the document, the computed transition duration of each element, and the console.
\<close>

definition getAnimationPromises ::
  "string \<Rightarrow> (string \<Rightarrow> nat list) \<Rightarrow> (nat \<Rightarrow> string option) \<Rightarrow> string list
     \<Rightarrow> promise list \<times> string list" where
  "getAnimationPromises sel queryAll duration con =
     (let animatedElements = queryAll sel
      in if length animatedElements = 0
         then ([Resolved], con @ [no_elements_error sel])
         else fold (animate_element sel duration) animatedElements ([], con))"

text \<open>
  An event reaches the listener on \<open>element\<close> when it is of the listened type and
  \<open>element\<close> is its target or contains its target (events bubble); the listener resolves
  the promise when \<open>element == event.target\<close>. \<open>tname\<close> stands for \<open>transitionEnd()\<close> of the
  helpers, \<open>inside\<close> for the tree of the document.
\<close>

fun deliver :: "string \<Rightarrow> (nat \<Rightarrow> nat \<Rightarrow> bool) \<Rightarrow> dom_event \<Rightarrow> promise \<Rightarrow> promise" where
  "deliver tname inside ev Resolved = Resolved"
| "deliver tname inside (DomEvent ty target) (AwaitsTransitionEnd element) =
     (if ty = tname \<and> (element = target \<or> inside target element)
      then (if element = target then Resolved else AwaitsTransitionEnd element)
      else AwaitsTransitionEnd element)"

definition after_events ::
  "string \<Rightarrow> (nat \<Rightarrow> nat \<Rightarrow> bool) \<Rightarrow> dom_event list \<Rightarrow> promise \<Rightarrow> promise" where
  "after_events tname inside evs p = fold (deliver tname inside) evs p"

text \<open>\<open>await Promise.all(animationPromises)\<close> in \<open>leavePage\<close> goes on when all are resolved.\<close>

definition all_resolved :: "promise list \<Rightarrow> bool" where
  "all_resolved ps = list_all (\<lambda>p. p = Resolved) ps"

subsection \<open>Concrete pages and states for the examples\<close>

definition same_path :: "string \<Rightarrow> string" where
  "same_path p = p"

definition page_a :: page where
  "page_a = \<lparr>url = ''/a'', responseURL = ''/a'', title = ''A'', blocks = [''<p>a</p>'']\<rparr>"

definition page_moved :: page where
  "page_moved = \<lparr>url = ''/old'', responseURL = ''/new'', title = ''N'', blocks = [''<p>n</p>'']\<rparr>"

definition plain_options :: render_options where
  "plain_options = \<lparr>event = None, skipTransition = False\<rparr>"

text \<open>
  The state after a visit to \<open>/a\<close> was superseded by a visit to \<open>/b\<close>, which is leaving: the
  classes are the ones \<open>leavePage\<close> sets.
\<close>

definition superseded :: swup where
  "superseded =
     \<lparr>classList = [''is-changing'', ''is-leaving'', ''is-animating''], location = ''/b'',
      currentPageUrl = ''/'', scrollToElement = None, options_cache = True,
      options_resolvePath = same_path, effects = []\<rparr>"

definition at_old :: swup where
  "at_old =
     \<lparr>classList = [''is-changing'', ''is-leaving'', ''is-animating''], location = ''/old'',
      currentPageUrl = ''/'', scrollToElement = Some ''top'', options_cache = True,
      options_resolvePath = same_path, effects = []\<rparr>"

text \<open>Three animated elements: 1 with a transition of 300ms, 2 with 0s, 3 with none.\<close>

definition three_elements :: "string \<Rightarrow> nat list" where
  "three_elements sel = [1, 2, 3]"

definition no_element :: "string \<Rightarrow> nat list" where
  "no_element sel = []"

definition durations :: "nat \<Rightarrow> string option" where
  "durations e = (if e = 1 then Some ''0.3s'' else if e = 2 then Some ''0s'' else None)"

definition flat :: "nat \<Rightarrow> nat \<Rightarrow> bool" where
  "flat x y = False"

text \<open>
  One animated element that declares two transition properties, both with a duration of
  zero: the computed \<open>transition-duration\<close> lists one duration per property. And one whose
  only duration is zero.
\<close>

definition one_element :: "string \<Rightarrow> nat list" where
  "one_element sel = [1]"

definition zero_list_durations :: "nat \<Rightarrow> string option" where
  "zero_list_durations e = Some ''0s, 0s''"

definition zero_durations :: "nat \<Rightarrow> string option" where
  "zero_durations e = Some ''0s''"

section \<open>Properties of the hook registry\<close>

subsection \<open>The sort\<close>

lemma sortRegistrations_le: "(sortRegistrations a b \<le> 0) = reg_le a b"
  by (auto simp: sortRegistrations_def reg_le_def prio_def Let_def split: option.splits)

lemma reg_le_total: "reg_le a b \<or> reg_le b a"
  by (auto simp: reg_le_def)

lemma reg_le_trans: "reg_le a b \<Longrightarrow> reg_le b c \<Longrightarrow> reg_le a c"
  by (auto simp: reg_le_def)

lemma set_insort_cmp: "set (insort_cmp c x xs) = insert x (set xs)"
  by (induction xs) auto

lemma set_sort_cmp: "set (sort_cmp c xs) = set xs"
  by (induction xs) (auto simp: sort_cmp_def set_insort_cmp)

lemma length_insort_cmp: "length (insort_cmp c x xs) = Suc (length xs)"
  by (induction xs) auto

lemma length_sort_cmp: "length (sort_cmp c xs) = length xs"
  by (induction xs) (auto simp: sort_cmp_def length_insort_cmp)

lemma sort_cmp_Cons: "sort_cmp c (x # xs) = insort_cmp c x (sort_cmp c xs)"
  by (simp add: sort_cmp_def)

lemma sort_cmp_Nil: "sort_cmp c [] = []"
  by (simp add: sort_cmp_def)

lemma sorted_insort_cmp:
  assumes tot: "\<And>a b. c a b \<le> 0 \<or> c b a \<le> 0"
      and tr: "\<And>a b d. c a b \<le> 0 \<Longrightarrow> c b d \<le> 0 \<Longrightarrow> c a d \<le> 0"
  shows "sorted_wrt (\<lambda>a b. c a b \<le> 0) xs \<Longrightarrow> sorted_wrt (\<lambda>a b. c a b \<le> 0) (insort_cmp c x xs)"
proof (induction xs)
  case Nil
  then show ?case by simp
next
  case (Cons y ys)
  show ?case
  proof (cases "c x y \<le> 0")
    case True
    with Cons.prems tr show ?thesis by auto
  next
    case False
    with tot have "c y x \<le> 0" by blast
    with False Cons show ?thesis by (auto simp: set_insort_cmp)
  qed
qed

lemma sorted_sort_cmp:
  assumes tot: "\<And>a b. c a b \<le> 0 \<or> c b a \<le> 0"
      and tr: "\<And>a b d. c a b \<le> 0 \<Longrightarrow> c b d \<le> 0 \<Longrightarrow> c a d \<le> 0"
  shows "sorted_wrt (\<lambda>a b. c a b \<le> 0) (sort_cmp c xs)"
proof (induction xs)
  case Nil
  show ?case by (simp add: sort_cmp_Nil)
next
  case (Cons x xs)
  show ?case
    unfolding sort_cmp_Cons
    by (rule sorted_insort_cmp[OF tot tr Cons.IH])
qed

lemma sorted_registrations: "sorted_wrt reg_le (sort_cmp sortRegistrations xs)"
proof -
  have "sorted_wrt (\<lambda>a b. sortRegistrations a b \<le> 0) (sort_cmp sortRegistrations xs)"
  proof (rule sorted_sort_cmp)
    fix a b :: "'a registration"
    show "sortRegistrations a b \<le> 0 \<or> sortRegistrations b a \<le> 0"
      using reg_le_total[of a b] by (simp add: sortRegistrations_le)
  next
    fix a b d :: "'a registration"
    assume "sortRegistrations a b \<le> 0" "sortRegistrations b d \<le> 0"
    then show "sortRegistrations a d \<le> 0"
      using reg_le_trans[of a b d] by (simp add: sortRegistrations_le)
  qed
  then show ?thesis by (simp add: sortRegistrations_le)
qed

lemma precedes_sorted:
  assumes "sorted_wrt R xs" "a \<in> set xs" "b \<in> set xs" "\<not> R b a" "R a a"
  shows "precedes a b xs"
proof -
  from assms(2) obtain us rest where xs: "xs = us @ a # rest"
    by (auto dest: split_list)
  from assms(4,5) have ne: "a \<noteq> b" by auto
  have "b \<notin> set us"
  proof
    assume "b \<in> set us"
    with assms(1) xs have "R b a" by (auto simp: sorted_wrt_append)
    with assms(4) show False by simp
  qed
  with assms(3) xs ne have "b \<in> set rest" by auto
  then obtain vs ws where "rest = vs @ b # ws" by (auto dest: split_list)
  with xs show ?thesis unfolding precedes_def by blast
qed

lemma precedes_append_left: "precedes a b xs \<Longrightarrow> precedes a b (xs @ ys)"
  unfolding precedes_def by (metis append.assoc append_Cons)

lemma precedes_append_right: "precedes a b ys \<Longrightarrow> precedes a b (xs @ ys)"
  unfolding precedes_def by (metis append.assoc)

lemma precedes_across: "a \<in> set xs \<Longrightarrow> b \<in> set ys \<Longrightarrow> precedes a b (xs @ ys)"
proof -
  assume "a \<in> set xs" "b \<in> set ys"
  then obtain us vs where xs: "xs = us @ a # vs" by (auto dest: split_list)
  from \<open>b \<in> set ys\<close> obtain us' vs' where ys: "ys = us' @ b # vs'" by (auto dest: split_list)
  have "xs @ ys = us @ a # (vs @ us') @ b # vs'" by (simp add: xs ys)
  then show ?thesis unfolding precedes_def by blast
qed

subsection \<open>The registry stays well formed\<close>


lemma keys_ledger_set:
  "set (map fst (ledger_set k v l)) = insert k (set (map fst l))"
proof (induction l)
  case Nil
  show ?case by simp
next
  case (Cons e l)
  obtain k' v' where e: "e = (k', v')" by (cases e)
  show ?case
  proof (cases "k' = k")
    case True
    then show ?thesis by (simp add: e)
  next
    case False
    with Cons.IH show ?thesis by (simp add: e insert_commute)
  qed
qed

lemma distinct_ledger_set:
  "distinct (map fst l) \<Longrightarrow> distinct (map fst (ledger_set k v l))"
proof (induction l)
  case Nil
  show ?case by simp
next
  case (Cons e l)
  obtain k' v' where e: "e = (k', v')" by (cases e)
  from Cons have d: "distinct (map fst l)" and n: "k' \<notin> set (map fst l)" by (auto simp: e)
  show ?case
  proof (cases "k' = k")
    case True
    with Cons.prems show ?thesis by (simp add: e)
  next
    case False
    have "k' \<notin> set (map fst (ledger_set k v l))"
      using n False unfolding keys_ledger_set by simp
    with False Cons.IH[OF d] show ?thesis by (simp add: e)
  qed
qed

lemma list_all_ledger_set:
  "list_all P l \<Longrightarrow> P (k, v) \<Longrightarrow> list_all P (ledger_set k v l)"
  by (induction l) auto

lemma ledger_ok_set:
  "ledger_ok h l \<Longrightarrow> href (handler v) = k \<Longrightarrow> hook v = h \<Longrightarrow> ledger_ok h (ledger_set k v l)"
  unfolding ledger_ok_def
  by (simp add: distinct_ledger_set list_all_ledger_set)

lemma ledger_ok_delete: "ledger_ok h l \<Longrightarrow> ledger_ok h (ledger_delete k l)"
  unfolding ledger_ok_def ledger_delete_def
  by (simp add: distinct_map_filter list_all_iff)

lemma ledger_ok_Nil: "ledger_ok h []"
  by (simp add: ledger_ok_def)

lemma registry_ok_upd: "registry_ok reg \<Longrightarrow> ledger_ok h l \<Longrightarrow> registry_ok (reg(h \<mapsto> l))"
  by (simp add: registry_ok_def)

lemma registry_ok_create: "registry_ok reg \<Longrightarrow> registry_ok (create h reg)"
  by (simp add: create_def registry_ok_upd ledger_ok_Nil)

lemma registry_ok_empty: "registry_ok Map.empty"
  by (simp add: registry_ok_def)

lemma registry_ok_fold_create: "registry_ok reg \<Longrightarrow> registry_ok (fold create hs reg)"
  by (induction hs arbitrary: reg) (simp_all add: registry_ok_create)

lemma registry_ok_init: "registry_ok init"
  unfolding init_def by (rule registry_ok_fold_create[OF registry_ok_empty])

lemma registry_ok_clear: "registry_ok reg \<Longrightarrow> registry_ok (clear reg)"
  by (auto simp: registry_ok_def clear_def ledger_ok_Nil)

lemma registry_ok_off: "registry_ok reg \<Longrightarrow> registry_ok (fst (off h ho reg w))"
  by (auto simp: off_def get_def Let_def registry_ok_def ledger_ok_Nil ledger_ok_delete
      split: option.splits)

lemma registry_ok_on: "registry_ok reg \<Longrightarrow> registry_ok (fst (snd (on h hnd opts reg w)))"
  by (auto simp: on_def get_def Let_def registry_ok_def ledger_ok_set split: option.splits)

lemma registry_ok_runSync:
  "registry_ok reg \<Longrightarrow> registry_ok (fst (snd (runSync rs args reg w)))"
proof (induction rs arbitrary: reg w)
  case Nil
  then show ?case by simp
next
  case (Cons r rs)
  show ?case
    by (simp add: Let_def Cons.prems Cons.IH registry_ok_off)
qed

lemma registry_ok_run:
  "registry_ok reg \<Longrightarrow> registry_ok (fst (snd (run rs args reg w)))"
proof (induction rs arbitrary: reg w)
  case Nil
  then show ?case by simp
next
  case (Cons r rs)
  show ?case
    by (auto simp: Let_def Cons.prems Cons.IH registry_ok_off split: awaited.splits)
qed

lemma registry_ok_callSync:
  "registry_ok reg \<Longrightarrow> registry_ok (fst (snd (callSync h args dh reg w)))"
  by (simp add: callSync_def Let_def registry_ok_runSync)

lemma registry_ok_call:
  "registry_ok reg \<Longrightarrow> registry_ok (fst (snd (call h args dh reg w)))"
  by (auto simp: call_def Let_def registry_ok_run split: awaited.splits)

lemma registry_ok_exec: "registry_ok (fst st) \<Longrightarrow> registry_ok (fst (exec p st))"
  by (cases p; cases st)
     (simp_all add: registry_ok_on registry_ok_off registry_ok_clear registry_ok_create
        registry_ok_callSync registry_ok_call)

lemma registry_ok_execs: "registry_ok (fst st) \<Longrightarrow> registry_ok (fst (execs ps st))"
  unfolding execs_def by (induction ps arbitrary: st) (simp_all add: registry_ok_exec)

subsection \<open>The order of the handlers of a trigger\<close>

lemma before_list_known:
  "reg h = Some ledger \<Longrightarrow>
   before_list (fst (getHandlers h dh reg w)) =
     sort_cmp sortRegistrations (filter (\<lambda>r. before r \<and> \<not> replace r) (ledger_values ledger))"
  by (simp add: getHandlers_def get_def Let_def)

lemma after_list_known:
  "reg h = Some ledger \<Longrightarrow>
   after_list (fst (getHandlers h dh reg w)) =
     sort_cmp sortRegistrations (filter (\<lambda>r. \<not> before r \<and> \<not> replace r) (ledger_values ledger))"
  by (simp add: getHandlers_def get_def Let_def)

lemma getHandlers_world_known: "reg h = Some ledger \<Longrightarrow> snd (getHandlers h dh reg w) = w"
  by (simp add: getHandlers_def get_def Let_def)

lemma precedes_in_group:
  assumes "a \<in> set xs" "b \<in> set xs" "prio a < prio b"
  shows "precedes a b (sort_cmp sortRegistrations xs)"
proof (rule precedes_sorted[where R = reg_le])
  show "sorted_wrt reg_le (sort_cmp sortRegistrations xs)" by (rule sorted_registrations)
  show "a \<in> set (sort_cmp sortRegistrations xs)" using assms(1) by (simp add: set_sort_cmp)
  show "b \<in> set (sort_cmp sortRegistrations xs)" using assms(2) by (simp add: set_sort_cmp)
  show "\<not> reg_le b a" using assms(3) by (auto simp: reg_le_def)
  show "reg_le a a" by (simp add: reg_le_def)
qed

text \<open>
  C3 (amended). Two handlers are registered on a hook, neither marked \<open>replace\<close>, the first
  with a lower priority than the second, and the second is marked \<open>before\<close> only if the
  first is. Then a trigger of the hook calls the first before the second, wherever the two
  stand in the ledger, that is in whatever order they were registered.
\<close>

theorem lower_priority_first:
  assumes known: "reg h = Some ledger"
      and r1: "r1 \<in> set (ledger_values ledger)" and r2: "r2 \<in> set (ledger_values ledger)"
      and nr1: "\<not> replace r1" and nr2: "\<not> replace r2"
      and lt: "prio r1 < prio r2"
      and grp: "before r2 \<Longrightarrow> before r1"
  shows "precedes r1 r2 (invocations (fst (getHandlers h dh reg w)))"
proof -
  let ?gh = "fst (getHandlers h dh reg w)"
  let ?B = "filter (\<lambda>r. before r \<and> \<not> replace r) (ledger_values ledger)"
  let ?A = "filter (\<lambda>r. \<not> before r \<and> \<not> replace r) (ledger_values ledger)"
  have bl: "before_list ?gh = sort_cmp sortRegistrations ?B"
    and al: "after_list ?gh = sort_cmp sortRegistrations ?A"
    using known by (simp_all add: before_list_known after_list_known)
  show ?thesis
  proof (cases "before r1")
    case b1: True
    show ?thesis
    proof (cases "before r2")
      case True
      have "precedes r1 r2 (before_list ?gh)"
        unfolding bl using r1 r2 nr1 nr2 b1 True lt by (intro precedes_in_group) auto
      then show ?thesis unfolding invocations_def by (rule precedes_append_left)
    next
      case False
      have "r1 \<in> set (before_list ?gh)" unfolding bl using r1 nr1 b1 by (simp add: set_sort_cmp)
      moreover have "r2 \<in> set (handler_list ?gh @ after_list ?gh)"
        unfolding al using r2 nr2 False by (simp add: set_sort_cmp)
      ultimately show ?thesis unfolding invocations_def by (rule precedes_across)
    qed
  next
    case b1: False
    with grp have b2: "\<not> before r2" by blast
    have "precedes r1 r2 (after_list ?gh)"
      unfolding al using r1 r2 nr1 nr2 b1 b2 lt by (intro precedes_in_group) auto
    then have "precedes r1 r2 (handler_list ?gh @ after_list ?gh)"
      by (rule precedes_append_right)
    then show ?thesis unfolding invocations_def by (rule precedes_append_right)
  qed
qed

subsection \<open>Spies observe the order of the calls\<close>


lemma ustate_off: "ustate (snd (off h ho reg w)) = ustate w"
  by (auto simp: off_def get_def Let_def split: option.splits)

lemma runSync_spies:
  "list_all (\<lambda>r. is_spy (handler r)) rs \<Longrightarrow>
   ustate (snd (snd (runSync rs args reg w))) = ustate w @ map (\<lambda>r. href (handler r)) rs"
proof (induction rs arbitrary: reg w)
  case Nil
  show ?case by simp
next
  case (Cons r rs)
  from Cons.prems have spy: "is_spy (handler r)" and rest: "list_all (\<lambda>r. is_spy (handler r)) rs"
    by auto
  from spy obtain ret where b: "hbody (handler r) = (\<lambda>v a d u. (ret, u @ [href (handler r)]))"
    unfolding is_spy_def by blast
  show ?case
    by (simp add: Let_def Cons.IH[OF rest] b ustate_off)
qed

text \<open>
  When every handler a trigger calls is a spy, the state after the synchronous trigger
  lists the handlers in the order of \<open>invocations\<close>: that order is the order of the calls.
\<close>

lemma callSync_spy_trace:
  assumes "list_all (\<lambda>r. is_spy (handler r)) (invocations (fst (getHandlers h dh reg w)))"
  shows "ustate (snd (snd (callSync h args dh reg w))) =
           ustate w @ map (\<lambda>r. href (handler r)) (invocations (fst (getHandlers h dh reg w)))"
proof -
  let ?gh = "getHandlers h dh reg w"
  have u0: "ustate (snd ?gh) = ustate w"
    by (simp add: getHandlers_def get_def Let_def split: option.splits)
  from assms have b: "list_all (\<lambda>r. is_spy (handler r)) (before_list (fst ?gh))"
    and m: "list_all (\<lambda>r. is_spy (handler r)) (handler_list (fst ?gh))"
    and a: "list_all (\<lambda>r. is_spy (handler r)) (after_list (fst ?gh))"
    by (simp_all add: invocations_def)
  show ?thesis
    by (simp add: callSync_def Let_def dispatchDomEvent_def invocations_def
        runSync_spies[OF b] runSync_spies[OF m] runSync_spies[OF a] u0)
qed

subsection \<open>The chain of replacing handlers\<close>

lemma on_known:
  "reg h = Some ledger \<Longrightarrow>
   on h hnd opts reg w =
     (Unregister h hnd,
      reg(h \<mapsto> ledger_set (href hnd)
        \<lparr>once = once opts, before = before opts, priority = priority opts,
         replace = replace opts, id_r = length ledger + 1, hook = h, handler = hnd,
         defaultHandler = None\<rparr> ledger),
      w)"
  by (simp add: on_def get_def Let_def)

lemma handler_list_known:
  "reg h = Some ledger \<Longrightarrow>
   handler_list (fst (getHandlers h (Some d) reg w)) =
     (let rs = sort_cmp sortRegistrations (filter (\<lambda>r. replace r) (ledger_values ledger))
      in if length rs > 0
         then [main_registration h (handler (rs ! (length rs - 1)))
                 (createDefaultHandler rs d (length rs - 1))]
         else [main_registration h d None])"
  by (simp add: getHandlers_def get_def Let_def)



subsection \<open>Promises returned to the synchronous trigger\<close>

lemma console_off: "set (console w) \<subseteq> set (console (snd (off h ho reg w)))"
  by (auto simp: off_def get_def Let_def split: option.splits)

lemma console_runSync:
  "set (console w) \<subseteq> set (console (snd (snd (runSync rs args reg w))))"
proof (induction rs arbitrary: reg w)
  case Nil
  show ?case by simp
next
  case (Cons r rs)
  let ?res = "hbody (handler r) (visit w) args (defaultHandler r) (ustate w)"
  let ?w1 = "w\<lparr>ustate := snd ?res\<rparr>"
  let ?w2 = "if isPromise (fst ?res) then ?w1\<lparr>console := console ?w1 @ [promise_warning (hook r)]\<rparr> else ?w1"
  let ?st = "if once r then off (hook r) (Some (handler r)) reg ?w2 else (reg, ?w2)"
  have a: "set (console w) \<subseteq> set (console ?w2)" by auto
  have b: "set (console ?w2) \<subseteq> set (console (snd ?st))"
    using console_off[of ?w2] by (cases "once r") auto
  have c: "set (console (snd ?st)) \<subseteq> set (console (snd (snd (runSync rs args (fst ?st) (snd ?st)))))"
    by (rule Cons.IH)
  have d: "snd (snd (runSync (r # rs) args reg w)) = snd (snd (runSync rs args (fst ?st) (snd ?st)))"
    by (simp add: Let_def)
  show ?case unfolding d using a b c by blast
qed

lemma runSync_warns:
  assumes "r \<in> set rs" and "\<And>v a d u. isPromise (fst (hbody (handler r) v a d u))"
  shows "promise_warning (hook r) \<in> set (console (snd (snd (runSync rs args reg w))))"
  using assms(1)
proof (induction rs arbitrary: reg w)
  case Nil
  then show ?case by simp
next
  case (Cons x rs)
  let ?res = "hbody (handler x) (visit w) args (defaultHandler x) (ustate w)"
  let ?w1 = "w\<lparr>ustate := snd ?res\<rparr>"
  let ?w2 = "if isPromise (fst ?res) then ?w1\<lparr>console := console ?w1 @ [promise_warning (hook x)]\<rparr> else ?w1"
  let ?st = "if once x then off (hook x) (Some (handler x)) reg ?w2 else (reg, ?w2)"
  have d: "snd (snd (runSync (x # rs) args reg w)) = snd (snd (runSync rs args (fst ?st) (snd ?st)))"
    by (simp add: Let_def)
  show ?case
  proof (cases "r = x")
    case True
    have "promise_warning (hook r) \<in> set (console ?w2)"
      using assms(2) True by simp
    moreover have "set (console ?w2) \<subseteq> set (console (snd ?st))"
      using console_off[of ?w2] by (cases "once x") auto
    moreover have "set (console (snd ?st)) \<subseteq> set (console (snd (snd (runSync rs args (fst ?st) (snd ?st)))))"
      by (rule console_runSync)
    ultimately show ?thesis unfolding d by blast
  next
    case False
    with Cons.prems have "r \<in> set rs" by simp
    then show ?thesis unfolding d by (rule Cons.IH)
  qed
qed

lemma console_dispatch: "console (dispatchDomEvent h args w) = console w"
  by (simp add: dispatchDomEvent_def)

lemma runSync_single_result:
  "fst (runSync [m] args reg w) = [fst (hbody (handler m) (visit w) args (defaultHandler m) (ustate w))]"
  by (simp add: Let_def)

text \<open>
  C6. \<open>callSync\<close> is a total function of its inputs: it returns whatever the promises its
  handlers return do later. When one of the handlers it calls returns a promise \<open>p\<close>
  (settled or not, \<open>Pending\<close> included), the warning for the hook is on the console when
  \<open>callSync\<close> returns; and when that handler is the main handler, \<open>callSync\<close> returns the
  promise itself, not awaited.
\<close>

theorem callSync_promise:
  assumes inv: "r \<in> set (invocations (fst (getHandlers h dh reg w)))"
      and ret: "\<And>v a d u. fst (hbody (handler r) v a d u) = Promise p"
  shows "promise_warning (hook r) \<in> set (console (snd (snd (callSync h args dh reg w))))
       \<and> (handler_list (fst (getHandlers h dh reg w)) = [r]
            \<longrightarrow> fst (callSync h args dh reg w) = Promise p)"
proof -
  let ?gh = "getHandlers h dh reg w"
  let ?r1 = "runSync (before_list (fst ?gh)) args reg (snd ?gh)"
  let ?r2 = "runSync (handler_list (fst ?gh)) args (fst (snd ?r1)) (snd (snd ?r1))"
  let ?r3 = "runSync (after_list (fst ?gh)) args (fst (snd ?r2)) (snd (snd ?r2))"
  have isp: "\<And>v a d u. isPromise (fst (hbody (handler r) v a d u))" by (simp add: ret)
  have fin: "console (snd (snd (callSync h args dh reg w))) = console (snd (snd ?r3))"
    by (simp add: callSync_def Let_def console_dispatch)
  have m12: "set (console (snd (snd ?r1))) \<subseteq> set (console (snd (snd ?r2)))"
    by (rule console_runSync)
  have m23: "set (console (snd (snd ?r2))) \<subseteq> set (console (snd (snd ?r3)))"
    by (rule console_runSync)
  from inv consider "r \<in> set (before_list (fst ?gh))" | "r \<in> set (handler_list (fst ?gh))"
    | "r \<in> set (after_list (fst ?gh))"
    by (auto simp: invocations_def)
  then have "promise_warning (hook r) \<in> set (console (snd (snd ?r3)))"
  proof cases
    case 1
    from runSync_warns[OF 1 isp] have "promise_warning (hook r) \<in> set (console (snd (snd ?r1)))" .
    with m12 m23 show ?thesis by blast
  next
    case 2
    from runSync_warns[OF 2 isp] have "promise_warning (hook r) \<in> set (console (snd (snd ?r2)))" .
    with m23 show ?thesis by blast
  next
    case 3
    from runSync_warns[OF 3 isp] show ?thesis .
  qed
  moreover have "handler_list (fst ?gh) = [r] \<longrightarrow> fst (callSync h args dh reg w) = Promise p"
    by (simp add: callSync_def Let_def ret)
  ultimately show ?thesis unfolding fin by blast
qed

subsection \<open>Unknown hooks\<close>

text \<open>
  C9 (amended). For a hook name the registry does not know: registering a handler logs an
  error and a warning, leaves the registry as it was and returns an unregister function
  that does nothing; a trigger, synchronous or not, logs the error, calls no handler (not
  the default handler either), leaves the registry as it was and returns \<open>undefined\<close>
  without throwing. The trigger still dispatches the \<open>swup:\<close> event of that name on the
  document.
\<close>

theorem unknown_hook_is_inert:
  assumes unknown: "reg h = None"
  shows "on h hnd opts reg w =
           (Noop, reg, w\<lparr>console := console w @ [unknown_hook_error h, hook_not_found h]\<rparr>)
       \<and> run_unregister (fst (on h hnd opts reg w)) reg' w' = (reg', w')
       \<and> callSync h args dh reg w =
           (Undefined, reg,
            w\<lparr>console := console w @ [unknown_hook_error h],
              events := events w @ [(''swup:'' @ h, h, args, visit w)]\<rparr>)
       \<and> call h args dh reg w =
           (Done Undefined, reg,
            w\<lparr>console := console w @ [unknown_hook_error h],
              events := events w @ [(''swup:'' @ h, h, args, visit w)]\<rparr>)"
  using unknown
  by (simp add: on_def get_def callSync_def call_def getHandlers_def dispatchDomEvent_def Let_def)

subsection \<open>One registration per handler\<close>

lemma distinct_insort_cmp:
  "distinct (insort_cmp c x xs) = (x \<notin> set xs \<and> distinct xs)"
  by (induction xs) (auto simp: set_insort_cmp)

lemma distinct_sort_cmp: "distinct (sort_cmp c xs) = distinct xs"
  by (induction xs) (simp_all add: sort_cmp_Nil sort_cmp_Cons distinct_insort_cmp set_sort_cmp)

lemma distinct_map_sort_cmp:
  "distinct (map f xs) \<Longrightarrow> distinct (map f (sort_cmp c xs))"
  by (simp add: distinct_map distinct_sort_cmp set_sort_cmp)

lemma ledger_ok_values:
  "ledger_ok h l \<Longrightarrow> map (\<lambda>r. href (handler r)) (ledger_values l) = map fst l"
  by (induction l) (auto simp: ledger_ok_def ledger_values_def)

lemma filter_ledger_set:
  "distinct (map fst l) \<Longrightarrow> filter (\<lambda>e. fst e = k) (ledger_set k v l) = [(k, v)]"
proof (induction l)
  case Nil
  show ?case by simp
next
  case (Cons e l)
  obtain k' v' where e: "e = (k', v')" by (cases e)
  show ?case
  proof (cases "k' = k")
    case True
    with Cons.prems have "k \<notin> fst ` set l" by (simp add: e)
    then have "filter (\<lambda>e. fst e = k) l = []" by (auto simp: filter_empty_conv)
    with True show ?thesis by (simp add: e)
  next
    case False
    with Cons show ?thesis by (simp add: e)
  qed
qed

lemma length_ledger_set_same:
  "length (ledger_set k v' (ledger_set k v l)) = length (ledger_set k v l)"
  by (induction l) auto

lemma ledger_set_twice: "ledger_set k v' (ledger_set k v l) = ledger_set k v' l"
  by (induction l) auto

lemma invocations_distinct:
  assumes ok: "ledger_ok h ledger" and known: "reg h = Some ledger"
      and dflt: "case dh of None \<Rightarrow> True | Some d \<Rightarrow> \<not> ledger_has (href d) ledger"
  shows "distinct (map (\<lambda>r. href (handler r)) (invocations (fst (getHandlers h dh reg w))))"
proof -
  let ?f = "\<lambda>r::'a registration. href (handler r)"
  let ?vs = "ledger_values ledger"
  let ?gh = "fst (getHandlers h dh reg w)"
  let ?B = "filter (\<lambda>r. before r \<and> \<not> replace r) ?vs"
  let ?A = "filter (\<lambda>r. \<not> before r \<and> \<not> replace r) ?vs"
  let ?R = "filter (\<lambda>r. replace r) ?vs"
  let ?rs = "sort_cmp sortRegistrations ?R"
  have "map ?f ?vs = map fst ledger" using ok by (rule ledger_ok_values)
  moreover have "distinct (map fst ledger)" using ok by (simp add: ledger_ok_def)
  ultimately have dv: "distinct (map ?f ?vs)" by simp
  then have inj: "inj_on ?f (set ?vs)" and dvs: "distinct ?vs"
    by (simp_all add: distinct_map)
  have bl: "before_list ?gh = sort_cmp sortRegistrations ?B"
    using known by (simp add: before_list_known)
  have al: "after_list ?gh = sort_cmp sortRegistrations ?A"
    using known by (simp add: after_list_known)
  have dB: "distinct (map ?f (before_list ?gh))"
    unfolding bl using dv by (intro distinct_map_sort_cmp) (simp add: distinct_map_filter)
  have dA: "distinct (map ?f (after_list ?gh))"
    unfolding al using dv by (intro distinct_map_sort_cmp) (simp add: distinct_map_filter)
  have BA: "?f ` set (before_list ?gh) \<inter> ?f ` set (after_list ?gh) = {}"
  proof -
    { fix x y assume "x \<in> set ?B" "y \<in> set ?A" "?f x = ?f y"
      then have "x \<in> set ?vs" "y \<in> set ?vs" "before x" "\<not> before y" by auto
      with inj \<open>?f x = ?f y\<close> have False by (auto dest: inj_onD) }
    then show ?thesis unfolding bl al set_sort_cmp by blast
  qed
  have keys: "?f ` set ?vs = set (map fst ledger)"
    using ok ledger_ok_values[of h ledger] by (metis set_map)
  have hl: "handler_list ?gh = [] \<or>
            (\<exists>m. handler_list ?gh = [m] \<and>
               (?f m \<notin> ?f ` set ?vs \<or> (\<exists>x \<in> set ?R. ?f m = ?f x)))"
  proof (cases dh)
    case None
    with known show ?thesis by (simp add: getHandlers_def get_def Let_def)
  next
    case (Some d)
    with dflt have nd: "href d \<notin> ?f ` set ?vs" by (simp add: keys ledger_has_def)
    show ?thesis
    proof (cases "length ?rs > 0")
      case True
      then have "?rs ! (length ?rs - 1) \<in> set ?rs" by simp
      then have "?rs ! (length ?rs - 1) \<in> set ?R" by (simp only: set_sort_cmp)
      with True Some known show ?thesis
        by (auto simp: handler_list_known Let_def main_registration_def)
    next
      case False
      with Some known nd show ?thesis
        by (auto simp: handler_list_known Let_def main_registration_def)
    qed
  qed
  have H: "distinct (map ?f (handler_list ?gh))
           \<and> ?f ` set (handler_list ?gh) \<inter> ?f ` set (before_list ?gh) = {}
           \<and> ?f ` set (handler_list ?gh) \<inter> ?f ` set (after_list ?gh) = {}"
  proof -
    from hl show ?thesis
    proof
      assume "handler_list ?gh = []" then show ?thesis by simp
    next
      assume "\<exists>m. handler_list ?gh = [m] \<and>
               (?f m \<notin> ?f ` set ?vs \<or> (\<exists>x \<in> set ?R. ?f m = ?f x))"
      then obtain m where m: "handler_list ?gh = [m]"
        and c: "?f m \<notin> ?f ` set ?vs \<or> (\<exists>x \<in> set ?R. ?f m = ?f x)" by blast
      have "?f m \<notin> ?f ` set ?B \<and> ?f m \<notin> ?f ` set ?A"
      proof -
        from c show ?thesis
        proof
          assume "?f m \<notin> ?f ` set ?vs" then show ?thesis by auto
        next
          assume "\<exists>x \<in> set ?R. ?f m = ?f x"
          then obtain x where x: "x \<in> set ?vs" "replace x" "?f m = ?f x" by auto
          { fix y assume "y \<in> set ?vs" "\<not> replace y" "?f m = ?f y"
            with x inj have "x = y" by (auto dest: inj_onD)
            with x \<open>\<not> replace y\<close> have False by simp }
          then show ?thesis by auto
        qed
      qed
      then show ?thesis unfolding m bl al set_sort_cmp by simp
    qed
  qed
  show ?thesis
    unfolding invocations_def using dB dA BA H by (auto simp: image_iff)
qed

lemma reregister_overwrites:
  assumes ok: "registry_ok reg" and known: "reg h = Some ledger"
      and dflt: "case dh of None \<Rightarrow> True
                 | Some d \<Rightarrow> href d \<noteq> href hnd \<and> \<not> ledger_has (href d) ledger"
  shows "\<exists>l2. fst (snd (on h hnd o2 (fst (snd (on h hnd o1 reg w))) w')) h = Some l2
      \<and> filter (\<lambda>e. fst e = href hnd) l2 =
          [(href hnd, \<lparr>once = once o2, before = before o2, priority = priority o2,
                        replace = replace o2, id_r = length l2 + 1, hook = h,
                        handler = hnd, defaultHandler = None\<rparr>)]
      \<and> distinct (map (\<lambda>r. href (handler r))
          (invocations (fst (getHandlers h dh
             (fst (snd (on h hnd o2 (fst (snd (on h hnd o1 reg w))) w'))) w''))))"
proof -
  let ?k = "href hnd"
  let ?R1 = "\<lparr>once = once o1, before = before o1, priority = priority o1,
         replace = replace o1, id_r = length ledger + 1, hook = h, handler = hnd,
         defaultHandler = None\<rparr>"
  let ?l1 = "ledger_set ?k ?R1 ledger"
  let ?R2 = "\<lparr>once = once o2, before = before o2, priority = priority o2,
         replace = replace o2, id_r = length ?l1 + 1, hook = h, handler = hnd,
         defaultHandler = None\<rparr>"
  let ?l2 = "ledger_set ?k ?R2 ?l1"
  let ?reg1 = "reg(h \<mapsto> ?l1)"
  let ?reg2 = "?reg1(h \<mapsto> ?l2)"
  have s1: "fst (snd (on h hnd o1 reg w)) = ?reg1"
    by (simp add: on_known[where reg=reg and h=h, OF known])
  have k1: "?reg1 h = Some ?l1" by simp
  have s2: "fst (snd (on h hnd o2 ?reg1 w')) = ?reg2"
    by (simp only: on_known[where reg="?reg1" and h=h, OF k1] fst_conv snd_conv)
  have k2: "?reg2 h = Some ?l2" by simp
  have ok0: "ledger_ok h ledger" using ok known by (simp add: registry_ok_def)
  have ok1: "ledger_ok h ?l1" by (rule ledger_ok_set[OF ok0]) simp_all
  have ok2: "ledger_ok h ?l2" by (rule ledger_ok_set[OF ok1]) simp_all
  have len: "length ?l2 = length ?l1" by (rule length_ledger_set_same)
  have flt: "filter (\<lambda>e. fst e = ?k) ?l2 = [(?k, ?R2)]"
  proof (rule filter_ledger_set)
    show "distinct (map fst ?l1)" using ok1 by (simp add: ledger_ok_def)
  qed
  have keys2: "set (map fst ?l2) = insert ?k (set (map fst ledger))"
    by (simp only: keys_ledger_set insert_absorb2)
  have d2: "case dh of None \<Rightarrow> True | Some d \<Rightarrow> \<not> ledger_has (href d) ?l2"
    using dflt unfolding ledger_has_def keys2 by (auto split: option.splits simp: ledger_has_def)
  have dist: "distinct (map (\<lambda>r. href (handler r)) (invocations (fst (getHandlers h dh ?reg2 w''))))"
    by (rule invocations_distinct[where reg="?reg2" and h=h, OF ok2 k2 d2])
  show ?thesis
    unfolding s1 s2 using k2 flt dist len by (intro exI[of _ ?l2]) simp
qed

text \<open>
  C10. Take the registry after any sequence of calls on a new one, and a hook it knows.
  The ledger of the hook holds every handler function at most once. Registering the same
  handler function twice on the hook, with whatever options, leaves exactly one
  registration under that handler: the one of the second call, with its options and a new
  id. The handlers a trigger of the hook then calls are pairwise different functions (the
  default handler being none of the registered ones), so the handler is called at most
  once.
\<close>

theorem one_registration_per_handler:
  assumes known: "fst (execs ops (init, w0)) h = Some ledger"
      and dflt: "case dh of None \<Rightarrow> True
                 | Some d \<Rightarrow> href d \<noteq> href hnd \<and> \<not> ledger_has (href d) ledger"
  shows "distinct (map fst ledger)
      \<and> (\<exists>l2. fst (snd (on h hnd o2 (fst (snd (on h hnd o1
                   (fst (execs ops (init, w0))) w))) w')) h = Some l2
      \<and> filter (\<lambda>e. fst e = href hnd) l2 =
          [(href hnd, \<lparr>once = once o2, before = before o2, priority = priority o2,
                        replace = replace o2, id_r = length l2 + 1, hook = h,
                        handler = hnd, defaultHandler = None\<rparr>)]
      \<and> distinct (map (\<lambda>r. href (handler r))
          (invocations (fst (getHandlers h dh
             (fst (snd (on h hnd o2 (fst (snd (on h hnd o1
                   (fst (execs ops (init, w0))) w))) w'))) w'')))))"
proof -
  let ?reg = "fst (execs ops (init, w0))"
  have "registry_ok (fst (init :: 'a registry, w0))" by (simp add: registry_ok_init)
  then have ok: "registry_ok ?reg" by (rule registry_ok_execs)
  with known have "ledger_ok h ledger" by (simp add: registry_ok_def)
  then have d: "distinct (map fst ledger)" by (simp add: ledger_ok_def)
  from d reregister_overwrites[where reg="?reg" and h=h, OF ok known dflt]
  show ?thesis by blast
qed

section \<open>Properties of the render stage\<close>

lemma same_resolved_classList:
  "isSameResolvedUrl (s\<lparr>classList := c\<rparr>) a b = isSameResolvedUrl s a b"
  by (simp add: isSameResolvedUrl_def resolvePath_def)

lemma getCurrentUrl_classList: "getCurrentUrl (s\<lparr>classList := c\<rparr>) = getCurrentUrl s"
  by (simp add: getCurrentUrl_def)

lemma same_resolved_trans:
  "isSameResolvedUrl s a b \<Longrightarrow> isSameResolvedUrl s a c = isSameResolvedUrl s b c"
  by (simp add: isSameResolvedUrl_def)

text \<open>
  What the code does when the render stage of a visit begins after the visit was
  superseded (the resolved address the browser shows is not the resolved URL of the page
  record): the guard skips the history, the cache, the content and the events, but the
  removal of the class \<open>is-leaving\<close> stands before the guard and is done all the same.
\<close>

lemma stale_render_only_drops_leaving:
  assumes stale: "\<not> isSameResolvedUrl s (getCurrentUrl s) (url pg)"
  shows "renderPage fromUrl pg opts s =
           s\<lparr>classList := classList_remove ''is-leaving'' (classList s)\<rparr>"
  using stale
  by (simp add: renderPage_def Let_def same_resolved_classList getCurrentUrl_classList)

text \<open>
  C7. The visit is current, and the URL the response came from resolves to another URL
  than the requested one. Then the render stage stores the page in the cache under the
  redirected URL and sets the history record to the redirected URL, before anything else;
  no other history update follows, and the address shown is the redirected URL.
\<close>

theorem redirect_updates_cache_and_history:
  assumes cur: "isSameResolvedUrl s (getCurrentUrl s) (url pg)"
      and red: "\<not> isSameResolvedUrl s (url pg) (fromUrl (responseURL pg))"
  shows "effects (renderPage fromUrl pg opts s) =
           effects s @
           [CacheUrl (pg\<lparr>url := fromUrl (responseURL pg)\<rparr>),
            UpdateHistoryRecord (fromUrl (responseURL pg)),
            EventsRun ''willReplaceContent'' (event opts), ReplaceContent pg,
            EventsRun ''contentReplaced'' (event opts), EventsRun ''pageView'' (event opts)]
           @ (if options_cache s then [] else [CacheEmpty]) @ [EnterPage opts]
       \<and> location (renderPage fromUrl pg opts s) = fromUrl (responseURL pg)"
proof -
  let ?u = "fromUrl (responseURL pg)"
  let ?s1 = "s\<lparr>classList := classList_remove ''is-leaving'' (classList s)\<rparr>"
  have c1: "isSameResolvedUrl ?s1 (getCurrentUrl ?s1) (url pg)"
    using cur by (simp add: same_resolved_classList getCurrentUrl_classList)
  have "isSameResolvedUrl s (getCurrentUrl s) ?u = isSameResolvedUrl s (url pg) ?u"
    using cur by (rule same_resolved_trans)
  with red have r1: "\<not> isSameResolvedUrl ?s1 (getCurrentUrl ?s1) ?u"
    by (simp add: same_resolved_classList getCurrentUrl_classList)
  show ?thesis
    unfolding renderPage_def Let_def
    by (simp only: c1 r1 not_True_eq_False not_False_eq_True if_True if_False)
       (simp add: updateHistoryRecord_def record_effects_def)
qed

section \<open>Properties of the animation waiter\<close>

lemma fold_animate_element:
  "fold (animate_element sel duration) els (ps, con) =
     (ps @ map (\<lambda>e. if no_transition (duration e) then Resolved else AwaitsTransitionEnd e) els,
      con @ map (\<lambda>e. no_transition_error sel) (filter (\<lambda>e. no_transition (duration e)) els))"
  by (induction els arbitrary: ps con) (simp_all add: animate_element_def)

lemma after_events_Resolved: "after_events tname inside evs Resolved = Resolved"
  unfolding after_events_def by (induction evs) simp_all

lemma deliver_waiting:
  "deliver tname inside ev (AwaitsTransitionEnd e) =
     (if ev = DomEvent tname e then Resolved else AwaitsTransitionEnd e)"
  by (cases ev) auto

lemma after_events_waiting:
  "(after_events tname inside evs (AwaitsTransitionEnd e) = Resolved) =
     (DomEvent tname e \<in> set evs)"
proof (induction evs)
  case Nil
  show ?case by (simp add: after_events_def)
next
  case (Cons ev evs)
  show ?case
  proof (cases "ev = DomEvent tname e")
    case True
    then show ?thesis
      using after_events_Resolved[of tname inside evs]
      by (simp add: after_events_def deliver_waiting)
  next
    case False
    with Cons.IH show ?thesis
      by (simp add: after_events_def deliver_waiting)
  qed
qed

text \<open>
  What the waiter computes. With no element matching the selector, it logs an error and
  returns one resolved promise, so that the \<open>Promise.all\<close> of \<open>leavePage\<close> goes on at
  once. Otherwise it returns one promise per matching element, in order: resolved, with an
  error logged, for an element whose computed transition duration is missing, empty or
  exactly the text \<open>0s\<close>; for any other element, whatever its duration says, a promise
  that is resolved after a sequence of events exactly when the sequence holds a
  transition-end event whose target is that element. A resolved promise stays resolved.
\<close>

lemma animation_waiter:
  "(queryAll sel = [] \<longrightarrow>
      getAnimationPromises sel queryAll duration con = ([Resolved], con @ [no_elements_error sel]))
   \<and> (queryAll sel \<noteq> [] \<longrightarrow>
      getAnimationPromises sel queryAll duration con =
        (map (\<lambda>e. if no_transition (duration e) then Resolved else AwaitsTransitionEnd e)
           (queryAll sel),
         con @ map (\<lambda>e. no_transition_error sel)
           (filter (\<lambda>e. no_transition (duration e)) (queryAll sel))))
   \<and> (queryAll sel = [] \<longrightarrow>
      all_resolved (fst (getAnimationPromises sel queryAll duration con)))
   \<and> (after_events tname inside evs (AwaitsTransitionEnd e) = Resolved)
       = (DomEvent tname e \<in> set evs)
   \<and> after_events tname inside evs Resolved = Resolved"
  by (simp add: getAnimationPromises_def Let_def fold_animate_element after_events_waiting
      after_events_Resolved all_resolved_def)

lemma leave_waits_for_every_transition:
  assumes "queryAll sel \<noteq> []"
  shows "all_resolved (map (after_events tname inside evs)
           (fst (getAnimationPromises sel queryAll duration con)))
         = (\<forall>e \<in> set (queryAll sel). no_transition (duration e) \<or> DomEvent tname e \<in> set evs)"
  using assms
  by (auto simp: getAnimationPromises_def Let_def fold_animate_element all_resolved_def
      list_all_iff after_events_waiting after_events_Resolved)

section \<open>Examples\<close>

lemma init_known: "h \<in> set hooks \<Longrightarrow> init h = Some []"
  by (auto simp: init_def hooks_def create_def)

lemma init_visit_start: "init ''visit:start'' = Some []"
  by (simp add: init_known hooks_def)

lemma init_bogus: "init ''bogus'' = None"
  by (simp add: init_def hooks_def create_def)

lemma href_spy: "href (spy n ret) = n" by (simp add: spy_def)
lemma hbody_spy: "hbody (spy n ret) v a d u = (ret, u @ [n])" by (simp add: spy_def)
lemma href_forwarding: "href (forwarding n) = n" by (simp add: forwarding_def)
lemma hbody_forwarding_Some: "hbody (forwarding n) v a (Some f) u = f v a (u @ [n])" by (simp add: forwarding_def)
lemma hbody_forwarding_None: "hbody (forwarding n) v a None u = (Undefined, u @ [n])" by (simp add: forwarding_def)

lemmas eval_defs = execs_def on_def off_def get_def Let_def callSync_def call_def getHandlers_def
  ledger_values_def ledger_has_def ledger_delete_def sort_cmp_def sortRegistrations_def prio_def
  main_registration_def dispatchDomEvent_def world0_def opts0_def invocations_def ids_of_def
  href_spy hbody_spy href_forwarding hbody_forwarding_Some hbody_forwarding_None
  init_visit_start init_bogus

text \<open>
  C3, as stated, fails: a handler with priority 2 marked \<open>before\<close> is called ahead of the
  default handler and of a handler with priority 1 that is not marked \<open>before\<close>.
\<close>

theorem before_flag_counterexample:
  "ustate (snd (execs
     [On ''visit:start'' (spy 1 Undefined) (opts0\<lparr>priority := Some 1\<rparr>),
      On ''visit:start'' (spy 2 Undefined) (opts0\<lparr>priority := Some 2, before := True\<rparr>),
      CallSync ''visit:start'' Undefined (Some (spy 0 Undefined))]
     (init, world0))) = [2, 0, 1]"
  by (simp add: eval_defs)

text \<open>
  The amended C3 at work: the spy with priority 5 is registered first, the spy with
  priority 1 second, and the trigger calls the second before the first.
\<close>

theorem lower_priority_first_witness:
  "low_first_reg ''visit:start'' = Some [(2, reg_high), (1, reg_low)]
   \<and> prio reg_low < prio reg_high
   \<and> precedes reg_low reg_high
        (invocations (fst (getHandlers ''visit:start'' None low_first_reg world0)))
   \<and> ustate (snd (snd (callSync ''visit:start'' Undefined None low_first_reg world0))) = [1, 2]"
proof -
  have k: "low_first_reg ''visit:start'' = Some [(2, reg_high), (1, reg_low)]"
    by (simp add: low_first_reg_def reg_high_def reg_low_def eval_defs)
  have lt: "prio reg_low < prio reg_high"
    by (simp add: prio_def reg_low_def reg_high_def)
  have p: "precedes reg_low reg_high
        (invocations (fst (getHandlers ''visit:start'' None low_first_reg world0)))"
    using lower_priority_first[where reg=low_first_reg and h="''visit:start''"
        and ?r1.0=reg_low and ?r2.0=reg_high and dh=None and w=world0, OF k _ _ _ _ lt]
    by (simp add: ledger_values_def reg_low_def reg_high_def)
  have t: "ustate (snd (snd (callSync ''visit:start'' Undefined None low_first_reg world0))) = [1, 2]"
    by (simp add: callSync_def getHandlers_def get_def k Let_def ledger_values_def sort_cmp_def
        sortRegistrations_def prio_def reg_low_def reg_high_def hbody_spy dispatchDomEvent_def
        world0_def)
  from k lt p t show ?thesis by simp
qed


text \<open>
  C6 at work: the default handler of \<open>visit:start\<close> returns a promise that never settles.
  The synchronous trigger returns that promise and leaves the warning; the asynchronous
  trigger never completes.
\<close>

theorem callSync_promise_witness:
  "main_registration ''visit:start'' (spy 0 (Promise Pending)) None
     \<in> set (invocations (fst (getHandlers ''visit:start'' (Some (spy 0 (Promise Pending))) init world0)))
   \<and> promise_warning ''visit:start''
     \<in> set (console (snd (snd (callSync ''visit:start'' Undefined (Some (spy 0 (Promise Pending))) init world0))))
   \<and> fst (callSync ''visit:start'' Undefined (Some (spy 0 (Promise Pending))) init world0) = Promise Pending
   \<and> fst (call ''visit:start'' Undefined (Some (spy 0 (Promise Pending))) init world0) = Stuck"
proof -
  let ?m = "main_registration ''visit:start'' (spy 0 (Promise Pending)) None :: nat list registration"
  have hl: "handler_list (fst (getHandlers ''visit:start'' (Some (spy 0 (Promise Pending))) init world0)) = [?m]"
    by (simp add: eval_defs)
  then have inv: "?m \<in> set (invocations (fst (getHandlers ''visit:start'' (Some (spy 0 (Promise Pending))) init world0)))"
    by (simp add: invocations_def)
  have ret: "\<And>v a d u. fst (hbody (handler ?m) v a d u) = Promise Pending"
    by (simp add: main_registration_def hbody_spy)
  have hk: "hook ?m = ''visit:start''" by (simp add: main_registration_def)
  from callSync_promise[OF inv ret, of Undefined] hl hk
  have "promise_warning ''visit:start''
     \<in> set (console (snd (snd (callSync ''visit:start'' Undefined (Some (spy 0 (Promise Pending))) init world0))))
   \<and> fst (callSync ''visit:start'' Undefined (Some (spy 0 (Promise Pending))) init world0) = Promise Pending"
    by simp
  moreover have "fst (call ''visit:start'' Undefined (Some (spy 0 (Promise Pending))) init world0) = Stuck"
    by (simp add: eval_defs)
  ultimately show ?thesis using inv by simp
qed

text \<open>
  C9, as stated, fails: a trigger of the unknown hook \<open>bogus\<close>, synchronous or not, leaves
  an event on the document that was not there before.
\<close>

theorem unknown_hook_counterexample:
  "events (snd (snd (callSync ''bogus'' Undefined None init world0)))
     = [(''swup:bogus'', ''bogus'', Undefined, Obj 0)]
   \<and> events (snd (snd (call ''bogus'' Undefined None init world0)))
     = [(''swup:bogus'', ''bogus'', Undefined, Obj 0)]
   \<and> events world0 = []"
  by (simp add: eval_defs)

text \<open>The amended C9 at work on the unknown hook \<open>bogus\<close>.\<close>

theorem unknown_hook_is_inert_witness:
  "(init :: nat list registry) ''bogus'' = None
   \<and> on ''bogus'' (spy 1 Undefined) opts0 init world0 =
        (Noop, init, world0\<lparr>console := [unknown_hook_error ''bogus'', hook_not_found ''bogus'']\<rparr>)
   \<and> callSync ''bogus'' Undefined (Some (spy 0 Undefined)) init world0 =
        (Undefined, init,
         world0\<lparr>console := [unknown_hook_error ''bogus''],
           events := [(''swup:bogus'', ''bogus'', Undefined, Obj 0)]\<rparr>)
   \<and> call ''bogus'' Undefined (Some (spy 0 Undefined)) init world0 =
        (Done Undefined, init,
         world0\<lparr>console := [unknown_hook_error ''bogus''],
           events := [(''swup:bogus'', ''bogus'', Undefined, Obj 0)]\<rparr>)"
  using unknown_hook_is_inert[where reg="init :: nat list registry" and h="''bogus''"
      and hnd="spy 1 Undefined" and opts=opts0 and w=world0 and args=Undefined
      and dh="Some (spy 0 Undefined)", OF init_bogus]
  by (simp add: init_bogus world0_def)

text \<open>
  C10 at work: after spy 2, spy 1 is registered twice on \<open>visit:start\<close>, first with a
  priority, then marked \<open>before\<close>. The ledger holds the second registration of spy 1
  only, and a trigger calls spy 1 once, ahead of the default handler and of spy 2.
\<close>

theorem one_registration_per_handler_witness:
  "fst (execs [On ''visit:start'' (spy 2 Undefined) opts0] (init, world0)) ''visit:start''
      = Some [(2, \<lparr>once = False, before = False, priority = None, replace = False, id_r = 1,
                   hook = ''visit:start'', handler = spy 2 Undefined, defaultHandler = None\<rparr>)]
   \<and> (fst (snd (on ''visit:start'' (spy 1 Undefined) (opts0\<lparr>before := True\<rparr>)
            (fst (snd (on ''visit:start'' (spy 1 Undefined) (opts0\<lparr>priority := Some 3\<rparr>)
               (fst (execs [On ''visit:start'' (spy 2 Undefined) opts0] (init, world0))) world0)))
            world0))) ''visit:start''
      = Some [(2, \<lparr>once = False, before = False, priority = None, replace = False, id_r = 1,
                   hook = ''visit:start'', handler = spy 2 Undefined, defaultHandler = None\<rparr>),
              (1, \<lparr>once = False, before = True, priority = None, replace = False, id_r = 3,
                   hook = ''visit:start'', handler = spy 1 Undefined, defaultHandler = None\<rparr>)]
   \<and> distinct (map (\<lambda>r. href (handler r))
        (invocations (fst (getHandlers ''visit:start'' (Some (spy 0 Undefined))
          (fst (snd (on ''visit:start'' (spy 1 Undefined) (opts0\<lparr>before := True\<rparr>)
            (fst (snd (on ''visit:start'' (spy 1 Undefined) (opts0\<lparr>priority := Some 3\<rparr>)
               (fst (execs [On ''visit:start'' (spy 2 Undefined) opts0] (init, world0))) world0)))
            world0))) world0))))
   \<and> ustate (snd (snd (callSync ''visit:start'' Undefined (Some (spy 0 Undefined))
          (fst (snd (on ''visit:start'' (spy 1 Undefined) (opts0\<lparr>before := True\<rparr>)
            (fst (snd (on ''visit:start'' (spy 1 Undefined) (opts0\<lparr>priority := Some 3\<rparr>)
               (fst (execs [On ''visit:start'' (spy 2 Undefined) opts0] (init, world0))) world0)))
            world0))) world0))) = [1, 0, 2]"
proof -
  have k: "fst (execs [On ''visit:start'' (spy 2 Undefined) opts0] (init, world0)) ''visit:start''
      = Some [(2, \<lparr>once = False, before = False, priority = None, replace = False, id_r = 1,
                   hook = ''visit:start'', handler = spy 2 Undefined, defaultHandler = None\<rparr>)]"
    by (simp add: eval_defs)
  have d: "case Some (spy 0 Undefined) of None \<Rightarrow> True
           | Some d \<Rightarrow> href d \<noteq> href (spy 1 Undefined) \<and>
               \<not> ledger_has (href d) [(2, \<lparr>once = False, before = False, priority = None, replace = False, id_r = 1,
                   hook = ''visit:start'', handler = spy 2 Undefined, defaultHandler = None\<rparr>)]"
    by (simp add: href_spy ledger_has_def)
  from one_registration_per_handler[where ops="[On ''visit:start'' (spy 2 Undefined) opts0]"
      and ?w0.0=world0 and h="''visit:start''" and hnd="spy 1 Undefined"
      and dh="Some (spy 0 Undefined)"
      and ?o1.0="opts0\<lparr>priority := Some 3\<rparr>" and ?o2.0="opts0\<lparr>before := True\<rparr>"
      and w=world0 and w'=world0 and w''=world0, OF k d]
  have "distinct (map (\<lambda>r. href (handler r))
        (invocations (fst (getHandlers ''visit:start'' (Some (spy 0 Undefined))
          (fst (snd (on ''visit:start'' (spy 1 Undefined) (opts0\<lparr>before := True\<rparr>)
            (fst (snd (on ''visit:start'' (spy 1 Undefined) (opts0\<lparr>priority := Some 3\<rparr>)
               (fst (execs [On ''visit:start'' (spy 2 Undefined) opts0] (init, world0))) world0)))
            world0))) world0))))"
    by blast
  moreover have "(fst (snd (on ''visit:start'' (spy 1 Undefined) (opts0\<lparr>before := True\<rparr>)
            (fst (snd (on ''visit:start'' (spy 1 Undefined) (opts0\<lparr>priority := Some 3\<rparr>)
               (fst (execs [On ''visit:start'' (spy 2 Undefined) opts0] (init, world0))) world0)))
            world0))) ''visit:start''
      = Some [(2, \<lparr>once = False, before = False, priority = None, replace = False, id_r = 1,
                   hook = ''visit:start'', handler = spy 2 Undefined, defaultHandler = None\<rparr>),
              (1, \<lparr>once = False, before = True, priority = None, replace = False, id_r = 3,
                   hook = ''visit:start'', handler = spy 1 Undefined, defaultHandler = None\<rparr>)]"
    by (simp add: eval_defs)
  moreover have "ustate (snd (snd (callSync ''visit:start'' Undefined (Some (spy 0 Undefined))
          (fst (snd (on ''visit:start'' (spy 1 Undefined) (opts0\<lparr>before := True\<rparr>)
            (fst (snd (on ''visit:start'' (spy 1 Undefined) (opts0\<lparr>priority := Some 3\<rparr>)
               (fst (execs [On ''visit:start'' (spy 2 Undefined) opts0] (init, world0))) world0)))
            world0))) world0))) = [1, 0, 2]"
    by (simp add: eval_defs)
  ultimately show ?thesis using k by simp
qed

text \<open>
  C4 fails on the code: a handler registered with \<open>once\<close> and \<open>replace\<close> is called by
  both of two triggers in a row, asynchronous or synchronous, because the main
  registration \<open>getHandlers\<close> builds for it does not carry the \<open>once\<close> flag. A handler
  registered with \<open>once\<close> alone is called by the first trigger only.
\<close>

theorem once_replace_not_removed:
  "ustate (snd (execs
     [On ''visit:start'' (spy 1 Undefined) (opts0\<lparr>once := True, replace := True\<rparr>),
      Call ''visit:start'' Undefined (Some (spy 0 Undefined)),
      Call ''visit:start'' Undefined (Some (spy 0 Undefined))]
     (init, world0))) = [1, 1]
   \<and> ustate (snd (execs
     [On ''visit:start'' (spy 1 Undefined) (opts0\<lparr>once := True, replace := True\<rparr>),
      CallSync ''visit:start'' Undefined (Some (spy 0 Undefined)),
      CallSync ''visit:start'' Undefined (Some (spy 0 Undefined))]
     (init, world0))) = [1, 1]
   \<and> ustate (snd (execs
     [On ''visit:start'' (spy 1 Undefined) (opts0\<lparr>once := True\<rparr>),
      Call ''visit:start'' Undefined (Some (spy 0 Undefined)),
      Call ''visit:start'' Undefined (Some (spy 0 Undefined))]
     (init, world0))) = [0, 1, 0]"
  by (simp add: eval_defs)

text \<open>
  C5 fails on the code: the id is the size of the ledger plus one, so after an \<open>off\<close> an id
  is given twice (handlers 2 and 3 both get id 2), and after two a later registration
  gets a smaller id than an earlier one (handler 4 gets id 2, handler 3 has id 3), and is
  called first at equal priority.
\<close>

theorem ids_repeat_and_invert:
  "ids_of ''visit:start'' (fst (execs
     [On ''visit:start'' (spy 1 Undefined) opts0,
      On ''visit:start'' (spy 2 Undefined) opts0,
      Off ''visit:start'' (Some (spy 1 Undefined)),
      On ''visit:start'' (spy 3 Undefined) opts0]
     (init, world0))) = [(2, 2), (3, 2)]
   \<and> ids_of ''visit:start'' (fst (execs
     [On ''visit:start'' (spy 1 Undefined) opts0,
      On ''visit:start'' (spy 2 Undefined) opts0,
      On ''visit:start'' (spy 3 Undefined) opts0,
      Off ''visit:start'' (Some (spy 1 Undefined)),
      Off ''visit:start'' (Some (spy 2 Undefined)),
      On ''visit:start'' (spy 4 Undefined) opts0]
     (init, world0))) = [(3, 3), (4, 2)]
   \<and> ustate (snd (execs
     [On ''visit:start'' (spy 1 Undefined) opts0,
      On ''visit:start'' (spy 2 Undefined) opts0,
      On ''visit:start'' (spy 3 Undefined) opts0,
      Off ''visit:start'' (Some (spy 1 Undefined)),
      Off ''visit:start'' (Some (spy 2 Undefined)),
      On ''visit:start'' (spy 4 Undefined) opts0,
      CallSync ''visit:start'' Undefined None]
     (init, world0))) = [4, 3]"
  by (simp add: eval_defs)

text \<open>
  C2 fails on the code: the visit to \<open>/a\<close> was superseded by a visit to \<open>/b\<close>, which is
  leaving and has set \<open>is-leaving\<close> on the root element. The render stage of the stale
  visit should do nothing, as the comment on its guard says; it takes \<open>is-leaving\<close> away,
  because the removal stands before the guard. It makes no call to the history, the
  cache or the content replacement.
\<close>

theorem stale_render_removes_leaving:
  "isSameResolvedUrl superseded (getCurrentUrl superseded) (url page_a) = False
   \<and> classList superseded = [''is-changing'', ''is-leaving'', ''is-animating'']
   \<and> classList (renderPage same_path page_a plain_options superseded)
       = [''is-changing'', ''is-animating'']
   \<and> effects (renderPage same_path page_a plain_options superseded) = []"
  by (simp add: renderPage_def isSameResolvedUrl_def resolvePath_def getCurrentUrl_def
      superseded_def page_a_def same_path_def classList_remove_def Let_def)

text \<open>The stale render stage of the visit to \<open>/a\<close> changes the class list and nothing else.\<close>

lemma stale_render_only_drops_leaving_example:
  "\<not> isSameResolvedUrl superseded (getCurrentUrl superseded) (url page_a)
   \<and> renderPage same_path page_a plain_options superseded =
       superseded\<lparr>classList := [''is-changing'', ''is-animating'']\<rparr>
   \<and> effects (renderPage same_path page_a plain_options superseded) = []
   \<and> location (renderPage same_path page_a plain_options superseded) = ''/b''"
proof -
  have st: "\<not> isSameResolvedUrl superseded (getCurrentUrl superseded) (url page_a)"
    by (simp add: isSameResolvedUrl_def resolvePath_def getCurrentUrl_def
        superseded_def page_a_def same_path_def Let_def)
  have cl: "classList_remove ''is-leaving'' (classList superseded) = [''is-changing'', ''is-animating'']"
    by (simp add: classList_remove_def superseded_def)
  from stale_render_only_drops_leaving[where s=superseded and pg=page_a and fromUrl=same_path
      and opts=plain_options, OF st]
  have r: "renderPage same_path page_a plain_options superseded =
       superseded\<lparr>classList := [''is-changing'', ''is-animating'']\<rparr>"
    by (simp only: cl)
  have e: "effects superseded = []" "location superseded = ''/b''"
    by (simp_all add: superseded_def)
  show ?thesis using st e by (simp add: r)
qed

text \<open>C7 at work: \<open>/old\<close> was requested and the response came from \<open>/new\<close>.\<close>

theorem redirect_updates_cache_and_history_witness:
  "isSameResolvedUrl at_old (getCurrentUrl at_old) (url page_moved)
   \<and> \<not> isSameResolvedUrl at_old (url page_moved) (same_path (responseURL page_moved))
   \<and> effects (renderPage same_path page_moved plain_options at_old) =
       [CacheUrl (page_moved\<lparr>url := ''/new''\<rparr>), UpdateHistoryRecord ''/new'',
        EventsRun ''willReplaceContent'' None, ReplaceContent page_moved,
        EventsRun ''contentReplaced'' None, EventsRun ''pageView'' None,
        EnterPage plain_options]
   \<and> location (renderPage same_path page_moved plain_options at_old) = ''/new''"
proof -
  have c: "isSameResolvedUrl at_old (getCurrentUrl at_old) (url page_moved)"
    by (simp add: isSameResolvedUrl_def resolvePath_def getCurrentUrl_def at_old_def
        page_moved_def same_path_def Let_def)
  have r: "\<not> isSameResolvedUrl at_old (url page_moved) (same_path (responseURL page_moved))"
    by (simp add: isSameResolvedUrl_def resolvePath_def at_old_def
        page_moved_def same_path_def Let_def)
  from redirect_updates_cache_and_history[where s=at_old and pg=page_moved and fromUrl=same_path
      and opts=plain_options, OF c r] c r
  show ?thesis
    by (simp add: at_old_def page_moved_def same_path_def plain_options_def)
qed

text \<open>
  Of three elements the first has a transition of 0.3s; its promise is not resolved by the
  transition end of element 2 or a click on itself, and is resolved by its own transition
  end.
\<close>

lemma animation_waiter_example:
  "three_elements ''.t'' \<noteq> [] \<and> no_element ''.t'' = []
   \<and> getAnimationPromises ''.t'' three_elements durations [] =
       ([AwaitsTransitionEnd 1, Resolved, Resolved],
        [no_transition_error ''.t'', no_transition_error ''.t''])
   \<and> getAnimationPromises ''.t'' no_element durations [] =
       ([Resolved], [no_elements_error ''.t''])
   \<and> after_events ''transitionend'' flat
        [DomEvent ''transitionend'' 2, DomEvent ''click'' 1] (AwaitsTransitionEnd 1)
       = AwaitsTransitionEnd 1
   \<and> after_events ''transitionend'' flat
        [DomEvent ''transitionend'' 2, DomEvent ''transitionend'' 1] (AwaitsTransitionEnd 1)
       = Resolved"
proof -
  have a: "three_elements ''.t'' \<noteq> []" and b: "no_element ''.t'' = []"
    by (simp_all add: three_elements_def no_element_def)
  from animation_waiter[of three_elements "''.t''" durations "[]" "''transitionend''" flat
      "[DomEvent ''transitionend'' 2, DomEvent ''transitionend'' 1]" 1] a
  have c: "getAnimationPromises ''.t'' three_elements durations [] =
       ([AwaitsTransitionEnd 1, Resolved, Resolved],
        [no_transition_error ''.t'', no_transition_error ''.t''])"
    and d: "after_events ''transitionend'' flat
        [DomEvent ''transitionend'' 2, DomEvent ''transitionend'' 1] (AwaitsTransitionEnd 1)
       = Resolved"
    by (simp_all add: three_elements_def durations_def no_transition_def)
  from animation_waiter[of no_element "''.t''" durations "[]"] b
  have e: "getAnimationPromises ''.t'' no_element durations [] =
       ([Resolved], [no_elements_error ''.t''])"
    by simp
  have f: "after_events ''transitionend'' flat
        [DomEvent ''transitionend'' 2, DomEvent ''click'' 1] (AwaitsTransitionEnd 1)
       = AwaitsTransitionEnd 1"
    by (simp add: after_events_def flat_def)
  from a b c d e f show ?thesis by simp
qed

text \<open>
  C8 fails on the code: an element declares no transition of a non-zero duration, and its
  computed duration is the list \<open>0s, 0s\<close>. The waiter should resolve at once and log an
  error, as it does for the single duration \<open>0s\<close> and as its comment "Resolve immediately
  if no transition defined" says; it compares the text with \<open>0s\<close> only, logs nothing and
  returns a promise that waits for a transition end that no transition of zero duration
  sends, so the \<open>Promise.all\<close> of \<open>leavePage\<close> does not go on.
\<close>

theorem zero_duration_list_waits:
  "getAnimationPromises ''.t'' one_element zero_list_durations [] = ([AwaitsTransitionEnd 1], [])
   \<and> all_resolved (map (after_events ''transitionend'' flat [])
        (fst (getAnimationPromises ''.t'' one_element zero_list_durations []))) = False
   \<and> getAnimationPromises ''.t'' one_element zero_durations [] =
        ([Resolved], [no_transition_error ''.t''])"
  by (simp add: getAnimationPromises_def animate_element_def no_transition_def one_element_def
      zero_list_durations_def zero_durations_def all_resolved_def after_events_def Let_def)

end
